theory Spec2Isabelle
  imports Main "HOL-Library.Sublist"
begin

section \<open>JavaScript strings\<close>

text \<open>
  A JavaScript string is a sequence of UTF-16 code units. It is modelled as a
  \<^typ>\<open>string\<close>; a \<^typ>\<open>char\<close> stands for a code unit below 256, and
  \<open>length\<close> is the \<open>.length\<close> of the source. On this range the white space of
  \<open>String.prototype.trim\<close> and of the regular expression class \<open>\s\<close> is TAB, LF, VT, FF,
  CR, SPACE and NBSP, and the line terminators (what \<open>.\<close> does not match, and where
  \<open>^\<close> and \<open>$\<close> anchor under the \<open>m\<close> flag) are LF and CR.
\<close>

definition is_space :: "char \<Rightarrow> bool" where
  "is_space c \<longleftrightarrow>
     c = CHR 0x09 \<or> c = CHR 0x0A \<or> c = CHR 0x0B \<or> c = CHR 0x0C \<or> c = CHR 0x0D \<or>
     c = CHR 0x20 \<or> c = CHR 0xA0"

definition is_line_terminator :: "char \<Rightarrow> bool" where
  "is_line_terminator c \<longleftrightarrow> c = CHR 0x0A \<or> c = CHR 0x0D"

definition trim :: "string \<Rightarrow> string" where
  "trim s = rev (dropWhile is_space (rev (dropWhile is_space s)))"

text \<open>\<open>s.slice(0, n)\<close> for \<open>0 \<le> n\<close> is \<^term>\<open>take n s\<close>.\<close>

text \<open>\<open>parts.join("\n")\<close>.\<close>

fun join_lines :: "string list \<Rightarrow> string" where
  "join_lines [] = []"
| "join_lines [l] = l"
| "join_lines (l # ls) = l @ CHR 0x0A # join_lines ls"

section \<open>Subagent session history (tools/tool-defs/task.ts)\<close>

definition MAX_TASK_SESSIONS :: nat where
  "MAX_TASK_SESSIONS = 48"

definition MAX_SUBAGENT_HISTORY_ITEMS :: nat where
  "MAX_SUBAGENT_HISTORY_ITEMS = 80"

definition MAX_SUBAGENT_HISTORY_CHARS :: int where
  "MAX_SUBAGENT_HISTORY_CHARS = 140000"

definition MAX_SUBAGENT_TOOL_CONTENT_CHARS :: nat where
  "MAX_SUBAGENT_TOOL_CONTENT_CHARS = 24000"

definition MAX_SUBAGENT_ASSISTANT_CONTENT_CHARS :: nat where
  "MAX_SUBAGENT_ASSISTANT_CONTENT_CHARS = 24000"

text \<open>
  The history items, with the fields task.ts reads. The provider metadata of an assistant
  entry (\<open>openai\<close>, \<open>anthropic\<close>) and the arguments of a tool request are kept as their
  \<open>JSON.stringify\<close> text, which is all the code measures; \<open>None\<close> is \<open>undefined\<close>.
  \<open>OtherItem\<close> stands for the kinds the size estimate does not single out
  (\<open>file-outdated\<close>, \<open>tool-reject\<close>, \<open>compaction-checkpoint\<close>, ...).
\<close>

datatype HistoryItem =
    UserItem nat string
  | AssistantItem nat string "string option" "string option" "string option"
  | ToolItem nat string string
  | ToolOutputItem nat string "nat option" string
  | ToolFailedItem nat string string string
  | ToolMalformedItem nat string
  | FileUnreadableItem nat string
  | NotificationItem nat string
  | OtherItem nat string

definition sanitizeLiveText :: "string \<Rightarrow> nat \<Rightarrow> string" where
  "sanitizeLiveText input maxChars =
     (let trimmed = trim input in
      if length trimmed \<le> maxChars then trimmed
      else take maxChars trimmed @ [CHR 0x0A] @ ''... (truncated)'')"

definition truncateSubagentToolContent :: "string \<Rightarrow> nat \<Rightarrow> string" where
  "truncateSubagentToolContent input maxChars =
     (if length input \<le> maxChars then input
      else take maxChars input @ [CHR 0x0A] @ ''... (truncated for subagent context)'')"

definition safeJsonLength :: "string option \<Rightarrow> nat" where
  "safeJsonLength input = (case input of None \<Rightarrow> 0 | Some serialized \<Rightarrow> length serialized)"

text \<open>An empty \<open>reasoningContent\<close> is falsy, so it becomes \<open>undefined\<close> like a missing one.\<close>

fun sanitizeSubagentHistoryItem :: "HistoryItem \<Rightarrow> HistoryItem" where
  "sanitizeSubagentHistoryItem (AssistantItem i content reasoningContent openai anthropic) =
     AssistantItem i
       (sanitizeLiveText content MAX_SUBAGENT_ASSISTANT_CONTENT_CHARS)
       (case reasoningContent of
          None \<Rightarrow> None
        | Some r \<Rightarrow>
            if r = [] then None
            else Some (sanitizeLiveText r MAX_SUBAGENT_ASSISTANT_CONTENT_CHARS))
       None None"
| "sanitizeSubagentHistoryItem item = item"

fun estimateHistoryItemSize :: "HistoryItem \<Rightarrow> int" where
  "estimateHistoryItemSize (AssistantItem i content reasoningContent openai anthropic) =
     int (length content)
     + int (case reasoningContent of None \<Rightarrow> 0 | Some r \<Rightarrow> length r)
     + int (safeJsonLength openai)
     + int (safeJsonLength anthropic)"
| "estimateHistoryItemSize (UserItem i content) = int (length content)"
| "estimateHistoryItemSize (NotificationItem i content) = int (length content)"
| "estimateHistoryItemSize (ToolOutputItem i content lines toolCallId) = int (length content)"
| "estimateHistoryItemSize (ToolItem i name arguments) = int (length arguments)"
| "estimateHistoryItemSize (ToolFailedItem i err toolCallId toolName) = int (length err)"
| "estimateHistoryItemSize (ToolMalformedItem i err) = int (length err)"
| "estimateHistoryItemSize (FileUnreadableItem i path) = int (length path)"
| "estimateHistoryItemSize (OtherItem i kind) = 40"

text \<open>The body of the \<open>history.map\<close> callback of \<open>compactSubagentHistory\<close>.\<close>

definition trimItem :: "HistoryItem \<Rightarrow> HistoryItem" where
  "trimItem item =
     (let sanitized = sanitizeSubagentHistoryItem item in
      case sanitized of
        ToolOutputItem i content lines toolCallId \<Rightarrow>
          (let next = truncateSubagentToolContent content MAX_SUBAGENT_TOOL_CONTENT_CHARS in
           if next = content then sanitized else ToolOutputItem i next lines toolCallId)
      | _ \<Rightarrow> sanitized)"

definition isUser :: "HistoryItem \<Rightarrow> bool" where
  "isUser item = (case item of UserItem i content \<Rightarrow> True | _ \<Rightarrow> False)"

definition sizeOf :: "HistoryItem list \<Rightarrow> int" where
  "sizeOf entries = foldl (\<lambda>sum entry. sum + estimateHistoryItemSize entry) 0 entries"

text \<open>\<open>arr.splice(i, 1)\<close>: the array without its element at index \<open>i\<close>.\<close>

definition splice1 :: "nat \<Rightarrow> 'a list \<Rightarrow> 'a list" where
  "splice1 i xs = take i xs @ drop (Suc i) xs"

text \<open>
  The \<open>while\<close> loop of \<open>compactSubagentHistory\<close>, on \<open>trimmed\<close> and \<open>totalChars\<close>.
  \<open>removed\<close> is \<open>undefined\<close> (and the loop breaks) exactly when \<open>removeIndex\<close> is out of
  range.
\<close>

function evictLoop :: "bool \<Rightarrow> HistoryItem list \<Rightarrow> int \<Rightarrow> HistoryItem list" where
  "evictLoop keepFirstUser trimmed totalChars =
     (let minLength = (if keepFirstUser then 2 else 1 :: nat) in
      if (length trimmed > MAX_SUBAGENT_HISTORY_ITEMS \<or> totalChars > MAX_SUBAGENT_HISTORY_CHARS)
         \<and> length trimmed \<ge> minLength
      then
        (let removeIndex = (if keepFirstUser then 1 else 0 :: nat) in
         if removeIndex < length trimmed
         then evictLoop keepFirstUser (splice1 removeIndex trimmed)
                (totalChars - estimateHistoryItemSize (trimmed ! removeIndex))
         else trimmed)
      else trimmed)"
  by pat_completeness auto
termination
  by (relation "measure (\<lambda>(k, xs, t). length xs)") (auto simp: splice1_def)

declare evictLoop.simps [simp del]

definition compactSubagentHistory :: "HistoryItem list \<Rightarrow> HistoryItem list" where
  "compactSubagentHistory history =
     (let trimmed = map trimItem history;
          keepFirstUser = (case trimmed of [] \<Rightarrow> False | first # _ \<Rightarrow> isUser first)
      in evictLoop keepFirstUser trimmed (sizeOf trimmed))"

text \<open>
  What the compaction guarantees, as predicates on its input and output. The seed is
  pinned when the history starts with a user message. A compacted entry is within the
  caps when its provider metadata is gone and each text is at most the 24000-character cap
  plus the truncation marker the code appends (16 characters for assistant text, 37 for a
  tool output). The visible text is kept when an entry is unchanged but for the trimmed and
  cut texts, each of which starts with the first 24000 characters of the original.
\<close>

definition seedPinned :: "HistoryItem list \<Rightarrow> bool" where
  "seedPinned h = (case h of [] \<Rightarrow> False | first # _ \<Rightarrow> isUser first)"

definition withinCaps :: "HistoryItem \<Rightarrow> bool" where
  "withinCaps item =
     (case item of
        AssistantItem i content reasoningContent openai anthropic \<Rightarrow>
          openai = None \<and> anthropic = None \<and> length content \<le> 24016 \<and>
          (case reasoningContent of None \<Rightarrow> True | Some r \<Rightarrow> length r \<le> 24016)
      | ToolOutputItem i content lines toolCallId \<Rightarrow> length content \<le> 24037
      | _ \<Rightarrow> True)"

definition visibleTextKept :: "HistoryItem \<Rightarrow> HistoryItem \<Rightarrow> bool" where
  "visibleTextKept orig new =
     (case orig of
        AssistantItem i content reasoningContent openai anthropic \<Rightarrow>
          (case new of
             AssistantItem i' content' reasoningContent' openai' anthropic' \<Rightarrow>
               i' = i \<and> prefix (take 24000 (trim content)) content' \<and>
               (case reasoningContent of
                  None \<Rightarrow> reasoningContent' = None
                | Some r \<Rightarrow>
                    (case reasoningContent' of
                       None \<Rightarrow> r = []
                     | Some r' \<Rightarrow> prefix (take 24000 (trim r)) r'))
           | _ \<Rightarrow> False)
      | ToolOutputItem i content lines toolCallId \<Rightarrow>
          (case new of
             ToolOutputItem i' content' lines' toolCallId' \<Rightarrow>
               i' = i \<and> lines' = lines \<and> toolCallId' = toolCallId \<and>
               prefix (take 24000 content) content'
           | _ \<Rightarrow> False)
      | _ \<Rightarrow> new = orig)"

section \<open>The session store (tools/tool-defs/task.ts)\<close>

record TaskSession =
  session_id :: string
  session_subagentName :: string
  session_history :: "HistoryItem list"

text \<open>
  \<open>taskSessions\<close> is a JavaScript \<open>Map\<close>: its keys are distinct and it iterates in insertion
  order. It is an association list, oldest insertion first. The operations on it do not
  look at the values, so they are written for any type of value.
\<close>

type_synonym sessions = "(string \<times> TaskSession) list"

definition map_has :: "string \<Rightarrow> (string \<times> 'v) list \<Rightarrow> bool" where
  "map_has k m \<longleftrightarrow> k \<in> fst ` set m"

definition map_delete :: "string \<Rightarrow> (string \<times> 'v) list \<Rightarrow> (string \<times> 'v) list" where
  "map_delete k m = filter (\<lambda>e. fst e \<noteq> k) m"

definition map_set :: "string \<Rightarrow> 'v \<Rightarrow> (string \<times> 'v) list \<Rightarrow> (string \<times> 'v) list" where
  "map_set k v m =
     (if map_has k m then map (\<lambda>e. if fst e = k then (k, v) else e) m else m @ [(k, v)])"

definition map_get :: "string \<Rightarrow> (string \<times> 'v) list \<Rightarrow> 'v option" where
  "map_get k m = map_of m k"

text \<open>
  The eviction loop of \<open>storeTaskSession\<close>. \<open>oldest\<close> is the first key; \<open>!oldest\<close> holds
  when the table is empty (\<open>undefined\<close>) and also when the first key is the empty string.
\<close>

function evictSessions :: "(string \<times> 'v) list \<Rightarrow> (string \<times> 'v) list" where
  "evictSessions tbl =
     (if length tbl > MAX_TASK_SESSIONS then
        (case tbl of
           [] \<Rightarrow> tbl
         | (oldest, s) # rest \<Rightarrow>
             if oldest = [] then tbl else evictSessions (map_delete oldest tbl))
      else tbl)"
  by pat_completeness auto
termination
  by (relation "measure length") (auto simp: map_delete_def less_Suc_eq_le)

declare evictSessions.simps [simp del]

definition storeTaskSession :: "string \<Rightarrow> 'v \<Rightarrow> (string \<times> 'v) list \<Rightarrow> (string \<times> 'v) list" where
  "storeTaskSession taskId session tbl =
     (let tbl1 = (if map_has taskId tbl then map_delete taskId tbl else tbl);
          tbl2 = map_set taskId session tbl1
      in evictSessions tbl2)"

text \<open>
  A full table whose oldest key is the empty string: 48 sessions with the keys \<open>""\<close>,
  \<open>"a"\<close>, \<open>"aa"\<close>, ... in insertion order.
\<close>

definition sessionNamed :: "string \<Rightarrow> TaskSession" where
  "sessionNamed k = \<lparr>session_id = k, session_subagentName = ''general'', session_history = []\<rparr>"

definition fullTable :: sessions where
  "fullTable = map (\<lambda>i. (replicate i CHR ''a'', sessionNamed (replicate i CHR ''a''))) [0..<48]"

section \<open>Task observations: the wire format (tools/tool-defs/task.ts)\<close>

record TaskObservation =
  obs_taskId :: string
  obs_subagentName :: string
  obs_description :: string
  obs_trace :: string
  obs_result :: string

text \<open>A number inside a template literal: its decimal digits.\<close>

function show_nat :: "nat \<Rightarrow> string" where
  "show_nat n =
     (if n < 10 then [char_of (48 + n)]
      else show_nat (n div 10) @ [char_of (48 + n mod 10)])"
  by pat_completeness auto
termination
  by (relation "measure id") auto

declare show_nat.simps [simp del]

text \<open>
  \<open>text.length > cap ? `${text.slice(0, cap)}\n... (truncated)` : text\<close>, the cut both
  builders apply to the trace and to the result.
\<close>

definition cutWithMarker :: "nat \<Rightarrow> string \<Rightarrow> string" where
  "cutWithMarker cap text =
     (if length text > cap then take cap text @ [CHR 0x0A] @ ''... (truncated)'' else text)"

definition buildObservedTaskOutput :: "TaskObservation \<Rightarrow> string" where
  "buildObservedTaskOutput params =
     (let trace = cutWithMarker 4000 (obs_trace params);
          result = cutWithMarker 2000 (obs_result params)
      in join_lines
           [''task_id: '' @ obs_taskId params,
            ''task_subagent: '' @ obs_subagentName params,
            ''task_description: '' @ obs_description params,
            [],
            ''<task_trace>'',
            trace,
            ''</task_trace>'',
            [],
            ''<task_result>'',
            result,
            ''</task_result>''])"

definition observationSection :: "TaskObservation \<Rightarrow> string" where
  "observationSection observation =
     (let trace = cutWithMarker 3000 (obs_trace observation);
          result = cutWithMarker 1500 (obs_result observation)
      in join_lines
           [''<task_observation>'',
            ''task_id: '' @ obs_taskId observation,
            ''task_subagent: '' @ obs_subagentName observation,
            ''task_description: '' @ obs_description observation,
            [],
            ''<task_trace>'',
            trace,
            ''</task_trace>'',
            [],
            ''<task_result>'',
            result,
            ''</task_result>'',
            ''</task_observation>''])"

definition buildParallelObservedTaskOutput :: "TaskObservation list \<Rightarrow> string" where
  "buildParallelObservedTaskOutput observations =
     (let sections = map observationSection observations
      in join_lines ((''task_parallel_count: '' @ show_nat (length observations)) # [] # sections))"

section \<open>Task observations: the parser (state.ts)\<close>

text \<open>
  The parser works with five regular expressions. Each is written out as the matcher the
  JavaScript engine runs: the leftmost start position wins, a greedy quantifier tries the
  longest repetition first and gives characters back on failure, a lazy one tries the
  shortest first.
\<close>

text \<open>
  \<open>(.+)$\<close> under the \<open>m\<close> flag: the longest run of characters that are not line
  terminators, which must not be empty; after that run the input ends or a line terminator
  follows, so \<open>$\<close> holds at the first try.
\<close>

definition capture_line :: "string \<Rightarrow> string option" where
  "capture_line s =
     (let m = takeWhile (\<lambda>c. \<not> is_line_terminator c) s in if m = [] then None else Some m)"

text \<open>
  \<open>\s*(.+)$\<close>: \<open>\s*\<close> is greedy, so one more white space character is consumed
  first, and the capture is tried at the current position only when that fails.
\<close>

fun field_value :: "string \<Rightarrow> string option" where
  "field_value [] = capture_line []"
| "field_value (c # cs) =
     (if is_space c then
        (case field_value cs of Some m \<Rightarrow> Some m | None \<Rightarrow> capture_line (c # cs))
      else capture_line (c # cs))"

text \<open>\<open>KEY\s*(.+)$\<close> at the current position, which is the start of a line.\<close>

definition match_field_at :: "string \<Rightarrow> string \<Rightarrow> string option" where
  "match_field_at key s = (if prefix key s then field_value (drop (length key) s) else None)"

text \<open>
  \<open>content.match(/^KEY\s*(.+)$/m)?.[1]\<close>: the capture of the leftmost match. \<open>^\<close>
  holds at the start of the input and after every line terminator; \<open>bol\<close> says whether
  the current position is such a place.
\<close>

fun search_field :: "string \<Rightarrow> bool \<Rightarrow> string \<Rightarrow> string option" where
  "search_field key bol [] = (if bol then match_field_at key [] else None)"
| "search_field key bol (c # cs) =
     (case (if bol then match_field_at key (c # cs) else None) of
        Some m \<Rightarrow> Some m
      | None \<Rightarrow> search_field key (is_line_terminator c) cs)"

definition match_field :: "string \<Rightarrow> string \<Rightarrow> string option" where
  "match_field key content = search_field key True content"

text \<open>
  \<open>\n?TAG\<close> at the current position: the optional line feed is greedy. The value is the
  input after the match.
\<close>

definition match_nl_tag :: "string \<Rightarrow> string \<Rightarrow> string option" where
  "match_nl_tag tag s =
     (case (case s of
              c # cs \<Rightarrow> if c = CHR 0x0A \<and> prefix tag cs then Some (drop (length tag) cs) else None
            | [] \<Rightarrow> None) of
        Some rest \<Rightarrow> Some rest
      | None \<Rightarrow> if prefix tag s then Some (drop (length tag) s) else None)"

text \<open>
  \<open>([\s\S]*?)\n?TAG\<close>: the lazy capture grows by one character each time the rest of
  the pattern fails. The value is the capture and the input after the match.
\<close>

fun lazy_body :: "string \<Rightarrow> string \<Rightarrow> (string \<times> string) option" where
  "lazy_body tag [] =
     (case match_nl_tag tag [] of Some rest \<Rightarrow> Some ([], rest) | None \<Rightarrow> None)"
| "lazy_body tag (c # cs) =
     (case match_nl_tag tag (c # cs) of
        Some rest \<Rightarrow> Some ([], rest)
      | None \<Rightarrow>
          (case lazy_body tag cs of
             Some (m, rest) \<Rightarrow> Some (c # m, rest)
           | None \<Rightarrow> None))"

text \<open>\<open>OPEN\n?([\s\S]*?)\n?CLOSE\<close> at the current position.\<close>

definition match_tagged_at :: "string \<Rightarrow> string \<Rightarrow> string \<Rightarrow> (string \<times> string) option" where
  "match_tagged_at opening closing s =
     (if prefix opening s then
        (let after = drop (length opening) s in
         case (case after of
                 c # cs \<Rightarrow> if c = CHR 0x0A then lazy_body closing cs else None
               | [] \<Rightarrow> None) of
           Some r \<Rightarrow> Some r
         | None \<Rightarrow> lazy_body closing after)
      else None)"

text \<open>The leftmost match of \<open>OPEN\n?([\s\S]*?)\n?CLOSE\<close>: its capture and the input after it.\<close>

fun search_tagged :: "string \<Rightarrow> string \<Rightarrow> string \<Rightarrow> (string \<times> string) option" where
  "search_tagged opening closing [] = match_tagged_at opening closing []"
| "search_tagged opening closing (c # cs) =
     (case match_tagged_at opening closing (c # cs) of
        Some r \<Rightarrow> Some r
      | None \<Rightarrow> search_tagged opening closing cs)"

text \<open>\<open>!value\<close> for an optional string: \<open>undefined\<close> and the empty string are falsy.\<close>

definition falsy :: "string option \<Rightarrow> bool" where
  "falsy v = (case v of None \<Rightarrow> True | Some t \<Rightarrow> t = [])"

definition parseTaskObservationBlock :: "string \<Rightarrow> TaskObservation option" where
  "parseTaskObservationBlock content =
     (let id = map_option trim (match_field ''task_id:'' content);
          subagentName = map_option trim (match_field ''task_subagent:'' content);
          description = map_option trim (match_field ''task_description:'' content);
          traceMatch = search_tagged ''<task_trace>'' ''</task_trace>'' content;
          resultMatch = search_tagged ''<task_result>'' ''</task_result>'' content
      in if falsy id \<or> falsy subagentName \<or> falsy description then None
         else
           (let trace = (case traceMatch of Some (m, rest) \<Rightarrow> trim m | None \<Rightarrow> []);
                result = (case resultMatch of Some (m, rest) \<Rightarrow> trim m | None \<Rightarrow> [])
            in Some \<lparr>obs_taskId = the id,
                     obs_subagentName = the subagentName,
                     obs_description = the description,
                     obs_trace = trace,
                     obs_result = result\<rparr>))"

text \<open>
  \<open>[...content.matchAll(/<task_observation>\n?([\s\S]*?)\n?<\/task_observation>/gm)]\<close>:
  the captures of the successive matches, each search starting where the last match ended.
  A match is never empty, so the remaining input gets shorter.
\<close>

lemma match_nl_tag_shorter:
  "match_nl_tag tag s = Some rest \<Longrightarrow> length rest + length tag \<le> length s"
  by (auto simp: match_nl_tag_def split: list.splits if_splits dest!: prefix_length_le)

lemma lazy_body_shorter:
  "lazy_body tag s = Some (m, rest) \<Longrightarrow> length rest + length tag \<le> length s"
proof (induction s arbitrary: m)
  case Nil
  then show ?case by (auto split: option.splits dest: match_nl_tag_shorter)
next
  case (Cons c cs)
  then show ?case
    by (fastforce split: option.splits prod.splits dest: match_nl_tag_shorter)
qed

lemma match_tagged_at_shorter:
  assumes "match_tagged_at opening closing s = Some (m, rest)"
  shows "length rest + length closing \<le> length s"
proof -
  define after where "after = drop (length opening) s"
  have la: "length after \<le> length s" by (simp add: after_def)
  from assms have
    "(\<exists>c cs. after = c # cs \<and> lazy_body closing cs = Some (m, rest))
     \<or> lazy_body closing after = Some (m, rest)"
    unfolding match_tagged_at_def Let_def after_def[symmetric]
    by (cases after) (auto split: if_splits option.splits)
  then show ?thesis
  proof
    assume "\<exists>c cs. after = c # cs \<and> lazy_body closing cs = Some (m, rest)"
    then obtain c cs where "after = c # cs" "lazy_body closing cs = Some (m, rest)" by blast
    with lazy_body_shorter[of closing cs m rest] la show ?thesis by simp
  next
    assume "lazy_body closing after = Some (m, rest)"
    with lazy_body_shorter[of closing after m rest] la show ?thesis by simp
  qed
qed

lemma search_tagged_shorter:
  "search_tagged opening closing s = Some (m, rest) \<Longrightarrow>
     length rest + length closing \<le> length s"
proof (induction s)
  case Nil
  then show ?case by (auto dest: match_tagged_at_shorter)
next
  case (Cons c cs)
  then show ?case
    by (fastforce split: option.splits dest: match_tagged_at_shorter)
qed

function wrappedMatches :: "string \<Rightarrow> string list" where
  "wrappedMatches content =
     (case search_tagged ''<task_observation>'' ''</task_observation>'' content of
        None \<Rightarrow> []
      | Some (m, rest) \<Rightarrow> m # wrappedMatches rest)"
  by pat_completeness auto
termination
  by (relation "measure length") (auto dest: search_tagged_shorter)

declare wrappedMatches.simps [simp del]

definition parseTaskObservationsFromToolOutput :: "string \<Rightarrow> TaskObservation list" where
  "parseTaskObservationsFromToolOutput content =
     (let matches = wrappedMatches content in
      if length matches > 0 then
        map the (filter (\<lambda>v. v \<noteq> None) (map parseTaskObservationBlock matches))
      else
        (case parseTaskObservationBlock content of Some single \<Rightarrow> [single] | None \<Rightarrow> []))"

definition parseTaskObservationFromToolOutput :: "string \<Rightarrow> TaskObservation option" where
  "parseTaskObservationFromToolOutput content =
     (case parseTaskObservationsFromToolOutput content of [] \<Rightarrow> None | first # _ \<Rightarrow> Some first)"

text \<open>
  The observations the wire format carries faithfully. A tag of the wire format occurring
  in a field would be read as markup, white space around a field is trimmed by the parser,
  a line terminator ends an identifying field, and text beyond the caps is cut by the
  builders. \<open>roundTrips traceCap resultCap\<close> holds for an observation with none of these:
  its task id, subagent name and description are non-empty single lines, its trace and
  result are within the caps, and every field is trimmed and free of tags.
\<close>

definition wireTags :: "string list" where
  "wireTags =
     [''<task_trace>'', ''</task_trace>'', ''<task_result>'', ''</task_result>'',
      ''<task_observation>'', ''</task_observation>'']"

definition tagFree :: "string \<Rightarrow> bool" where
  "tagFree s \<longleftrightarrow> (\<forall>tag \<in> set wireTags. \<not> sublist tag s)"

definition trimmed :: "string \<Rightarrow> bool" where
  "trimmed s \<longleftrightarrow> trim s = s"

definition singleLine :: "string \<Rightarrow> bool" where
  "singleLine s \<longleftrightarrow> (\<forall>c \<in> set s. \<not> is_line_terminator c)"

definition plainField :: "string \<Rightarrow> bool" where
  "plainField s \<longleftrightarrow> s \<noteq> [] \<and> trimmed s \<and> singleLine s \<and> tagFree s"

definition plainBody :: "nat \<Rightarrow> string \<Rightarrow> bool" where
  "plainBody cap s \<longleftrightarrow> length s \<le> cap \<and> trimmed s \<and> tagFree s"

definition roundTrips :: "nat \<Rightarrow> nat \<Rightarrow> TaskObservation \<Rightarrow> bool" where
  "roundTrips traceCap resultCap obs \<longleftrightarrow>
     plainField (obs_taskId obs) \<and> plainField (obs_subagentName obs)
     \<and> plainField (obs_description obs)
     \<and> plainBody traceCap (obs_trace obs) \<and> plainBody resultCap (obs_result obs)"






text \<open>Inputs used below to run the builders and the parser.\<close>

definition emptyIdBlock :: string where
  "emptyIdBlock = join_lines [''task_id: '', ''task_subagent: explore'', ''task_description: scan repo'']"

definition emptyObservation :: TaskObservation where
  "emptyObservation =
     \<lparr>obs_taskId = ''task_1'', obs_subagentName = ''explore'', obs_description = ''scan repo'',
      obs_trace = [], obs_result = []\<rparr>"

definition fullObservation :: TaskObservation where
  "fullObservation =
     \<lparr>obs_taskId = ''task_2'', obs_subagentName = ''general'', obs_description = ''summarize failures'',
      obs_trace = join_lines [''[tool-request] list'', ''[tool-output] 12 lines''],
      obs_result = ''Done''\<rparr>"

definition paddedObservation :: TaskObservation where
  "paddedObservation =
     \<lparr>obs_taskId = ''task_3'', obs_subagentName = ''explore'', obs_description = ''scan modules'',
      obs_trace = ''[assistant]'', obs_result = ''Done'' @ [CHR 0x0A]\<rparr>"


section \<open>Focus navigation (state.ts)\<close>

datatype Focus = Main | Task string

text \<open>The fields of the UI state that focus navigation reads and writes.\<close>

record UiState =
  focus :: Focus
  taskObservationOrder :: "string list"
  liveTaskObservationOrder :: "string list"

definition activeTaskOrder :: "UiState \<Rightarrow> string list" where
  "activeTaskOrder state =
     (if length (liveTaskObservationOrder state) > 0 then liveTaskObservationOrder state
      else taskObservationOrder state)"

text \<open>\<open>Array.prototype.indexOf\<close>: the first index of the element, or \<open>-1\<close>.\<close>

fun indexOf :: "'a list \<Rightarrow> 'a \<Rightarrow> int" where
  "indexOf [] x = - 1"
| "indexOf (y # ys) x =
     (if y = x then 0 else (let i = indexOf ys x in if i < 0 then - 1 else i + 1))"

definition focusNextTask :: "UiState \<Rightarrow> UiState" where
  "focusNextTask state =
     (let order = activeTaskOrder state in
      if length order = 0 then state
      else
        (case focus state of
           Main \<Rightarrow> state\<lparr>focus := Task (order ! 0)\<rparr>
         | Task taskId \<Rightarrow>
             (let currentIndex = indexOf order taskId in
              if currentIndex < 0 then state\<lparr>focus := Task (order ! (length order - 1))\<rparr>
              else if currentIndex = int (length order) - 1 then state\<lparr>focus := Main\<rparr>
              else state\<lparr>focus := Task (order ! nat (currentIndex + 1))\<rparr>)))"

definition focusPrevTask :: "UiState \<Rightarrow> UiState" where
  "focusPrevTask state =
     (let order = activeTaskOrder state in
      if length order = 0 then state
      else
        (case focus state of
           Main \<Rightarrow> state\<lparr>focus := Task (order ! (length order - 1))\<rparr>
         | Task taskId \<Rightarrow>
             (let currentIndex = indexOf order taskId in
              if currentIndex < 0 then state\<lparr>focus := Task (order ! (length order - 1))\<rparr>
              else if currentIndex = 0 then state\<lparr>focus := Main\<rparr>
              else state\<lparr>focus := Task (order ! nat (currentIndex - 1))\<rparr>)))"

section \<open>The delegation tool (tools/tool-defs/task.ts)\<close>

text \<open>
  What the tool throws. An \<open>Error\<close> object is modelled by its class, and for a plain
  \<open>Error\<close> also by its \<open>name\<close>; a thrown value that is not an \<open>Error\<close> is modelled
  by its \<open>String(value)\<close>. \<open>ToolError\<close> and \<open>AbortError\<close> are the classes of
  tools/common.ts and transports/transport-common.ts.
\<close>

datatype thrown =
    ToolError string
  | AbortError string
  | OtherError string string
  | NonError string

definition USER_ABORTED_ERROR_MESSAGE :: string where
  "USER_ABORTED_ERROR_MESSAGE = ''Aborted by user''"

text \<open>\<open>error instanceof Error ? error.message : String(error)\<close>.\<close>

fun errorText :: "thrown \<Rightarrow> string" where
  "errorText (ToolError message) = message"
| "errorText (AbortError message) = message"
| "errorText (OtherError name message) = message"
| "errorText (NonError rendering) = rendering"

text \<open>\<open>String.prototype.toLowerCase\<close> on code units below 256.\<close>

definition to_lower :: "char \<Rightarrow> char" where
  "to_lower c =
     (let n = (of_char c :: nat) in
      if (65 \<le> n \<and> n \<le> 90) \<or> (192 \<le> n \<and> n \<le> 222 \<and> n \<noteq> 215) then char_of (n + 32)
      else c)"

fun isAbortLikeError :: "thrown \<Rightarrow> bool" where
  "isAbortLikeError (AbortError message) = True"
| "isAbortLikeError (NonError rendering) = False"
| "isAbortLikeError (ToolError message) = sublist ''aborted'' (map to_lower message)"
| "isAbortLikeError (OtherError name message) =
     (name = ''AbortError'' \<or> sublist ''aborted'' (map to_lower message))"

record Agent =
  agent_name :: string
  agent_description :: "string option"

record TaskInvocation =
  inv_description :: string
  inv_prompt :: string
  inv_subagent_type :: string
  inv_task_id :: "string option"

record TaskArguments =
  arg_description :: string
  arg_prompt :: string
  arg_subagent_type :: string
  arg_task_id :: "string option"
  parallel_tasks :: "TaskInvocation list option"

record PeerSummary =
  peer_subagentName :: string
  peer_description :: string

record PeerContext =
  peer_index :: nat
  peer_total :: nat
  peers :: "PeerSummary list"

text \<open>\<open>makeLiveTaskID\<close> of tools/task-progress.ts.\<close>

definition makeLiveTaskID :: "string \<Rightarrow> nat \<Rightarrow> string" where
  "makeLiveTaskID toolCallId index = ''task_'' @ toolCallId @ ''_'' @ show_nat index"

definition makeSessionKey :: "string \<Rightarrow> string" where
  "makeSessionKey task = task"

text \<open>\<open>xs.filter((_, i) => i !== index)\<close>.\<close>

definition withoutIndex :: "nat \<Rightarrow> 'a list \<Rightarrow> 'a list" where
  "withoutIndex index xs = map snd (filter (\<lambda>(i, x). i \<noteq> index) (enumerate 0 xs))"

definition buildParallelAwarenessPrefix :: "TaskInvocation \<Rightarrow> PeerContext \<Rightarrow> string" where
  "buildParallelAwarenessPrefix invocation peer =
     (if peer_total peer \<le> 1 then []
      else
        (let peerLines =
               join_lines
                 (map (\<lambda>p. ''  - @'' @ peer_subagentName p @ '': '' @ peer_description p)
                    (withoutIndex (peer_index peer) (peers peer)))
         in join_lines
              (filter (\<lambda>line. line \<noteq> [])
                 [''[Parallel execution context]'',
                  ''You are worker '' @ show_nat (peer_index peer + 1) @ '' of ''
                    @ show_nat (peer_total peer) @ '' running concurrently.'',
                  ''Your task: '' @ inv_description invocation,
                  (if length peerLines > 0
                   then ''Other workers running in parallel:'' @ [CHR 0x0A] @ peerLines
                   else []),
                  ''Scope discipline: complete only your assigned task. Do not modify artefacts owned by other workers.'',
                  []])))"

text \<open>
  The collaborators of the tool. \<open>runSubagentUntilPause\<close> drives the model and the tools of
  the subagent on a session; here it is a function of the agent and the session that gives
  the history the session ends with, and the answer or what was thrown. \<open>summarizeTaskTrace\<close>
  renders a history as the trace text. The live progress registry, which the tool only
  writes to, is left out.
\<close>

record Env =
  runSubagentUntilPause :: "Agent \<Rightarrow> TaskSession \<Rightarrow> HistoryItem list \<times> (thrown + string)"
  summarizeTaskTrace :: "HistoryItem list \<Rightarrow> string"

text \<open>The mutable state: the session table and the counter behind \<open>sequenceId()\<close>.\<close>

record World =
  taskSessions :: sessions
  nextSequenceId :: nat

text \<open>
  The first part of \<open>executeTaskInvocation\<close>, up to and including \<open>storeTaskSession\<close>:
  it resolves the subagent, finds or creates the session, checks the pinned subagent, and
  appends the prompt. It gives the subagent, the task id and the session the subagent will
  run on, with the new state, or what was thrown, with the state as it was.
\<close>

definition prepareTaskSession ::
  "TaskInvocation \<Rightarrow> string \<Rightarrow> Agent list \<Rightarrow> PeerContext option \<Rightarrow> World
     \<Rightarrow> (thrown + Agent \<times> string \<times> TaskSession) \<times> World" where
  "prepareTaskSession invocation plannedTaskId candidates peer world =
     (let subagentName = inv_subagent_type invocation in
      case find (\<lambda>agent. agent_name agent = subagentName) candidates of
        None \<Rightarrow> (Inl (ToolError (''Unknown subagent: '' @ subagentName)), world)
      | Some subagent \<Rightarrow>
          (let task = (case inv_task_id invocation of Some t \<Rightarrow> t | None \<Rightarrow> plannedTaskId);
               sessionKey = makeSessionKey task;
               session =
                 (case map_get sessionKey (taskSessions world) of
                    Some s \<Rightarrow> s
                  | None \<Rightarrow>
                      \<lparr>session_id = task, session_subagentName = subagentName,
                       session_history = []\<rparr>)
           in if session_subagentName session \<noteq> subagentName then
                (Inl (ToolError
                   (''Task '' @ task @ '' belongs to subagent '' @ session_subagentName session
                    @ ''. Resume it with that same subagent.'')), world)
              else
                (let awarenessPrefix =
                       (case peer of
                          Some p \<Rightarrow> buildParallelAwarenessPrefix invocation p
                        | None \<Rightarrow> []);
                     prompt = trim (awarenessPrefix @ inv_prompt invocation);
                     session1 =
                       (if length prompt > 0
                        then session\<lparr>session_history :=
                               session_history session @ [UserItem (nextSequenceId world) prompt]\<rparr>
                        else session);
                     world1 =
                       (if length prompt > 0
                        then world\<lparr>nextSequenceId := nextSequenceId world + 1\<rparr>
                        else world);
                     world2 =
                       world1\<lparr>taskSessions :=
                         storeTaskSession sessionKey session1 (taskSessions world1)\<rparr>
                 in (Inr (subagent, task, session1), world2))))"

text \<open>
  \<open>executeTaskInvocation\<close>. The session object the subagent mutates is the one in the
  table, so the history it ends with is written through to the table entry when the key is
  still there.
\<close>

definition executeTaskInvocation ::
  "Env \<Rightarrow> TaskInvocation \<Rightarrow> string \<Rightarrow> Agent list \<Rightarrow> PeerContext option \<Rightarrow> World
     \<Rightarrow> (thrown + TaskObservation) \<times> World" where
  "executeTaskInvocation env invocation plannedTaskId candidates peer world =
     (case prepareTaskSession invocation plannedTaskId candidates peer world of
        (Inl e, world') \<Rightarrow> (Inl e, world')
      | (Inr (subagent, task, session), world') \<Rightarrow>
          (let (finalHistory, outcome) = runSubagentUntilPause env subagent session;
               session' = session\<lparr>session_history := finalHistory\<rparr>;
               key = makeSessionKey task;
               world'' =
                 (if map_has key (taskSessions world')
                  then world'\<lparr>taskSessions := map_set key session' (taskSessions world')\<rparr>
                  else world')
           in case outcome of
                Inl e \<Rightarrow> (Inl e, world'')
              | Inr answer \<Rightarrow>
                  (Inr \<lparr>obs_taskId = task,
                        obs_subagentName = inv_subagent_type invocation,
                        obs_description = inv_description invocation,
                        obs_trace = summarizeTaskTrace env (session_history session'),
                        obs_result = answer\<rparr>, world'')))"

definition taskObservationFromFailure :: "TaskInvocation \<Rightarrow> thrown \<Rightarrow> string \<Rightarrow> TaskObservation" where
  "taskObservationFromFailure invocation error task =
     (let message = errorText error in
      \<lparr>obs_taskId = task,
       obs_subagentName = inv_subagent_type invocation,
       obs_description = inv_description invocation,
       obs_trace = ''[task-error]'' @ [CHR 0x0A] @ message,
       obs_result = ''Subagent task failed: '' @ message\<rparr>)"

text \<open>\<open>[...new Set(duplicates)]\<close>: the distinct elements in the order of their first occurrence.\<close>

definition uniqueInOrder :: "string list \<Rightarrow> string list" where
  "uniqueInOrder xs = rev (remdups (rev xs))"

fun join_comma :: "string list \<Rightarrow> string" where
  "join_comma [] = []"
| "join_comma [x] = x"
| "join_comma (x # xs) = x @ '', '' @ join_comma xs"

text \<open>The loop of \<open>validateTaskIdUniqueness\<close>, on \<open>seen\<close> and \<open>duplicates\<close>.\<close>

fun collectDuplicates :: "TaskInvocation list \<Rightarrow> string list \<Rightarrow> string list \<Rightarrow> string list" where
  "collectDuplicates [] seen duplicates = duplicates"
| "collectDuplicates (invocation # rest) seen duplicates =
     (case inv_task_id invocation of
        None \<Rightarrow> collectDuplicates rest seen duplicates
      | Some t \<Rightarrow>
          if t \<in> set seen then collectDuplicates rest seen (duplicates @ [t])
          else collectDuplicates rest (seen @ [t]) duplicates)"

definition validateTaskIdUniqueness :: "TaskInvocation list \<Rightarrow> thrown + unit" where
  "validateTaskIdUniqueness invocations =
     (let duplicates = collectDuplicates invocations [] [] in
      if length duplicates > 0 then
        (let uniqueDuplicates = uniqueInOrder duplicates in
         Inl (ToolError
           (''Duplicate task_id'' @ (if length uniqueDuplicates > 1 then ''s'' else [])
            @ '' in parallel_tasks: '' @ join_comma uniqueDuplicates @ ''. ''
            @ ''Each task in parallel_tasks must have a unique task_id.'')))
      else Inr ())"

definition singleInvocation :: "TaskArguments \<Rightarrow> TaskInvocation" where
  "singleInvocation args =
     \<lparr>inv_description = arg_description args,
      inv_prompt = arg_prompt args,
      inv_subagent_type = arg_subagent_type args,
      inv_task_id = arg_task_id args\<rparr>"

definition invocationInputs :: "TaskArguments \<Rightarrow> TaskInvocation list" where
  "invocationInputs args =
     (case parallel_tasks args of
        Some tasks \<Rightarrow> if length tasks > 0 then tasks else [singleInvocation args]
      | None \<Rightarrow> [singleInvocation args])"

text \<open>The \<open>for\<close> loop of \<open>validate\<close> over \<open>parallel_tasks ?? []\<close>.\<close>

fun checkSubagents :: "Agent list \<Rightarrow> TaskInvocation list \<Rightarrow> thrown + unit" where
  "checkSubagents candidates [] = Inr ()"
| "checkSubagents candidates (task # rest) =
     (case find (\<lambda>agent. agent_name agent = inv_subagent_type task) candidates of
        None \<Rightarrow> Inl (ToolError (''Unknown subagent: '' @ inv_subagent_type task))
      | Some subagent \<Rightarrow> checkSubagents candidates rest)"

definition validate :: "Agent list \<Rightarrow> TaskArguments \<Rightarrow> thrown + unit" where
  "validate candidates args =
     (case find (\<lambda>agent. agent_name agent = arg_subagent_type args) candidates of
        None \<Rightarrow> Inl (ToolError (''Unknown subagent: '' @ arg_subagent_type args))
      | Some selected \<Rightarrow>
          (case validateTaskIdUniqueness (invocationInputs args) of
             Inl e \<Rightarrow> Inl e
           | Inr u \<Rightarrow>
               checkSubagents candidates
                 (case parallel_tasks args of Some tasks \<Rightarrow> tasks | None \<Rightarrow> [])))"

text \<open>\<open>planned\<close> of \<open>run\<close>: every invocation with its task id.\<close>

definition planned :: "string \<Rightarrow> TaskArguments \<Rightarrow> (TaskInvocation \<times> string) list" where
  "planned liveRunId args =
     map (\<lambda>(index, invocation).
            (invocation,
             (case inv_task_id invocation of
                Some t \<Rightarrow> t
              | None \<Rightarrow> makeLiveTaskID liveRunId index)))
       (enumerate 0 (invocationInputs args))"

text \<open>
  The parallel branch of \<open>run\<close> calls \<open>executeTaskInvocation\<close> for every planned
  invocation inside \<open>planned.map\<close>. Each call runs up to its \<open>await\<close> before the next
  call is made, so all invocations have looked up, checked, extended and stored their
  sessions before any subagent takes a turn; and two invocations that resolve to the same
  key hold the same session object. For this branch the sessions are therefore objects in a
  store: \<open>store_objects\<close> lists them by address, and \<open>store_table\<close> is \<open>taskSessions\<close>
  with the addresses as values.
\<close>

record Store =
  store_objects :: "TaskSession list"
  store_table :: "(string \<times> nat) list"
  store_sequenceId :: nat

text \<open>
  Every entry of \<open>taskSessions\<close> is an object of its own: \<open>loadStore\<close> gives the entry
  at position \<open>i\<close> the address \<open>i\<close>, and \<open>storedWorld\<close> reads the table back.
\<close>

definition loadStore :: "World \<Rightarrow> Store" where
  "loadStore world =
     \<lparr>store_objects = map snd (taskSessions world),
      store_table = map (\<lambda>(address, entry). (fst entry, address)) (enumerate 0 (taskSessions world)),
      store_sequenceId = nextSequenceId world\<rparr>"

definition storedWorld :: "Store \<Rightarrow> World" where
  "storedWorld store =
     \<lparr>taskSessions = map (\<lambda>(key, address). (key, store_objects store ! address)) (store_table store),
      nextSequenceId = store_sequenceId store\<rparr>"

text \<open>
  The table of a store is well formed when its keys are distinct, its addresses are
  distinct, and every address is that of an object: the store \<open>loadStore\<close> gives is, and
  starting an invocation keeps it so. \<open>readTable\<close> is the table with the objects for
  the addresses.
\<close>

definition tableOk :: "Store \<Rightarrow> bool" where
  "tableOk store \<longleftrightarrow>
     distinct (map fst (store_table store)) \<and> distinct (map snd (store_table store))
     \<and> (\<forall>entry \<in> set (store_table store). snd entry < length (store_objects store))"

definition readTable :: "TaskSession list \<Rightarrow> (string \<times> nat) list \<Rightarrow> sessions" where
  "readTable objects tbl = map (\<lambda>(key, address). (key, objects ! address)) tbl"

text \<open>
  \<open>executeTaskInvocation\<close> up to its \<open>await\<close>, on the store. It gives the subagent,
  the task id and the address of the session the subagent is started on, with the new
  store, or what was thrown, with the store as it was. A session that is not in the table
  is a new object; the prompt is pushed onto the history of the object itself.
\<close>

type_synonym started = "thrown + Agent \<times> string \<times> nat"

definition startTaskInvocation ::
  "TaskInvocation \<Rightarrow> string \<Rightarrow> Agent list \<Rightarrow> PeerContext option \<Rightarrow> Store \<Rightarrow> started \<times> Store" where
  "startTaskInvocation invocation plannedTaskId candidates peer store =
     (let subagentName = inv_subagent_type invocation in
      case find (\<lambda>agent. agent_name agent = subagentName) candidates of
        None \<Rightarrow> (Inl (ToolError (''Unknown subagent: '' @ subagentName)), store)
      | Some subagent \<Rightarrow>
          (let task = (case inv_task_id invocation of Some t \<Rightarrow> t | None \<Rightarrow> plannedTaskId);
               sessionKey = makeSessionKey task;
               (address, store0) =
                 (case map_get sessionKey (store_table store) of
                    Some found \<Rightarrow> (found, store)
                  | None \<Rightarrow>
                      (length (store_objects store),
                       store\<lparr>store_objects := store_objects store @
                         [\<lparr>session_id = task, session_subagentName = subagentName,
                           session_history = []\<rparr>]\<rparr>));
               session = store_objects store0 ! address
           in if session_subagentName session \<noteq> subagentName then
                (Inl (ToolError
                   (''Task '' @ task @ '' belongs to subagent '' @ session_subagentName session
                    @ ''. Resume it with that same subagent.'')), store)
              else
                (let awarenessPrefix =
                       (case peer of
                          Some p \<Rightarrow> buildParallelAwarenessPrefix invocation p
                        | None \<Rightarrow> []);
                     prompt = trim (awarenessPrefix @ inv_prompt invocation);
                     store1 =
                       (if length prompt > 0
                        then store0\<lparr>store_objects :=
                               (store_objects store0)[address :=
                                  session\<lparr>session_history :=
                                    session_history session
                                      @ [UserItem (store_sequenceId store0) prompt]\<rparr>],
                               store_sequenceId := store_sequenceId store0 + 1\<rparr>
                        else store0);
                     store2 =
                       store1\<lparr>store_table :=
                         storeTaskSession sessionKey address (store_table store1)\<rparr>
                 in (Inr (subagent, task, address), store2))))"

text \<open>
  \<open>planned.map((entry, index) => executeTaskInvocation({...}))\<close>: every invocation is
  started, in batch order, on the store the ones before it have left, whether they threw or
  not.
\<close>

fun startAll ::
  "Agent list \<Rightarrow> PeerSummary list \<Rightarrow> nat \<Rightarrow> nat \<Rightarrow> (TaskInvocation \<times> string) list \<Rightarrow> Store
     \<Rightarrow> started list \<times> Store" where
  "startAll candidates peerSummaries count index [] store = ([], store)"
| "startAll candidates peerSummaries count index ((invocation, task) # rest) store =
     (let (start, store') =
            startTaskInvocation invocation task candidates
              (Some \<lparr>peer_index = index, peer_total = count, peers = peerSummaries\<rparr>) store;
          (others, store'') = startAll candidates peerSummaries count (index + 1) rest store'
      in (start # others, store''))"

text \<open>
  What happens between the start of the invocations and their settling is the subagents'
  and the event loop's: the runs interleave at every \<open>await\<close>, each on its session object.
  It is given by the environment. For the started invocations and the store they have
  left, \<open>awaited\<close> is what \<open>await runSubagentUntilPause(...)\<close> gives the invocation at an
  index, the answer or what was thrown, with the store as it is when that invocation is
  resumed; \<open>settledStore\<close> is the store once every invocation has settled. Every run is
  taken to settle.
\<close>

record Interleaving =
  awaited :: "started list \<Rightarrow> Store \<Rightarrow> nat \<Rightarrow> (thrown + string) \<times> Store"
  settledStore :: "started list \<Rightarrow> Store \<Rightarrow> Store"

text \<open>
  How one invocation settles. One that threw before its \<open>await\<close> is rejected with what
  it threw. Otherwise it is rejected with what the subagent run threw, or it reads the
  trace from the history its session object has when it is resumed and is fulfilled with
  its observation.
\<close>

definition settleTaskInvocation ::
  "Env \<Rightarrow> Interleaving \<Rightarrow> started list \<Rightarrow> Store \<Rightarrow> nat \<Rightarrow> TaskInvocation \<Rightarrow> started
     \<Rightarrow> thrown + TaskObservation" where
  "settleTaskInvocation env interleaving starts store index invocation start =
     (case start of
        Inl e \<Rightarrow> Inl e
      | Inr (subagent, task, address) \<Rightarrow>
          (case awaited interleaving starts store index of
             (Inl e, resumed) \<Rightarrow> Inl e
           | (Inr answer, resumed) \<Rightarrow>
               Inr \<lparr>obs_taskId = task,
                     obs_subagentName = inv_subagent_type invocation,
                     obs_description = inv_description invocation,
                     obs_trace =
                       summarizeTaskTrace env (session_history (store_objects resumed ! address)),
                     obs_result = answer\<rparr>))"

text \<open>The \<open>settled.map\<close> callback of the parallel branch.\<close>

definition observationOfSettled ::
  "(TaskInvocation \<times> string) \<Rightarrow> (thrown + TaskObservation) \<Rightarrow> TaskObservation" where
  "observationOfSettled entry settled =
     (case settled of
        Inr v \<Rightarrow> v
      | Inl reason \<Rightarrow> taskObservationFromFailure (fst entry) reason (snd entry))"

text \<open>
  The parallel branch of \<open>run\<close>: \<open>startedInvocations\<close> is the \<open>planned.map\<close>,
  \<open>settledOutcomes\<close> what \<open>Promise.allSettled\<close> resolves to, and
  \<open>parallelObservations\<close> the observations the batch text is built from.
\<close>

definition peerSummariesOf :: "string \<Rightarrow> TaskArguments \<Rightarrow> PeerSummary list" where
  "peerSummariesOf liveRunId args =
     map (\<lambda>entry. \<lparr>peer_subagentName = inv_subagent_type (fst entry),
                    peer_description = inv_description (fst entry)\<rparr>) (planned liveRunId args)"

definition startedInvocations ::
  "Agent list \<Rightarrow> string \<Rightarrow> TaskArguments \<Rightarrow> World \<Rightarrow> started list \<times> Store" where
  "startedInvocations candidates liveRunId args world =
     (let plan = planned liveRunId args
      in startAll candidates (peerSummariesOf liveRunId args) (length plan) 0 plan (loadStore world))"

definition settledOutcomes ::
  "Env \<Rightarrow> Interleaving \<Rightarrow> Agent list \<Rightarrow> string \<Rightarrow> TaskArguments \<Rightarrow> World
     \<Rightarrow> (thrown + TaskObservation) list \<times> World" where
  "settledOutcomes env interleaving candidates liveRunId args world =
     (let plan = planned liveRunId args;
          (starts, store) = startedInvocations candidates liveRunId args world
      in (map (\<lambda>(index, entry, start).
                 settleTaskInvocation env interleaving starts store index (fst entry) start)
            (enumerate 0 (zip plan starts)),
          storedWorld (settledStore interleaving starts store)))"

definition parallelObservations ::
  "Env \<Rightarrow> Interleaving \<Rightarrow> Agent list \<Rightarrow> string \<Rightarrow> TaskArguments \<Rightarrow> World
     \<Rightarrow> TaskObservation list \<times> World" where
  "parallelObservations env interleaving candidates liveRunId args world =
     (let plan = planned liveRunId args;
          (settled, world') = settledOutcomes env interleaving candidates liveRunId args world
      in (map (\<lambda>(entry, s). observationOfSettled entry s) (zip plan settled), world'))"

text \<open>
  \<open>run\<close>. \<open>abortedAtStart\<close> and \<open>abortedLater\<close> are what \<open>abortSignal.aborted\<close> reads
  before the invocations start and in the handlers after they have finished. The value is
  the \<open>content\<close> of the tool result, or what \<open>run\<close> throws.
\<close>

definition run ::
  "Env \<Rightarrow> Interleaving \<Rightarrow> Agent list \<Rightarrow> string \<Rightarrow> bool \<Rightarrow> bool \<Rightarrow> TaskArguments \<Rightarrow> World
     \<Rightarrow> (thrown + string) \<times> World" where
  "run env interleaving candidates liveRunId abortedAtStart abortedLater args world =
     (if abortedAtStart then (Inl (ToolError USER_ABORTED_ERROR_MESSAGE), world)
      else
        (let parallelTasks = (case parallel_tasks args of Some tasks \<Rightarrow> tasks | None \<Rightarrow> []) in
         if length parallelTasks > 0 then
           (let (observations, world') =
                  parallelObservations env interleaving candidates liveRunId args world
            in (Inr (buildParallelObservedTaskOutput observations), world'))
         else
           (let (invocation, task) = hd (planned liveRunId args);
                (outcome, world') =
                  executeTaskInvocation env invocation task candidates None world
            in case outcome of
                 Inr observation \<Rightarrow> (Inr (buildObservedTaskOutput observation), world')
               | Inl error \<Rightarrow>
                   if abortedLater \<or> isAbortLikeError error
                   then (Inl (ToolError USER_ABORTED_ERROR_MESSAGE), world')
                   else
                     (Inr (buildObservedTaskOutput
                             (taskObservationFromFailure invocation error task)), world'))))"

text \<open>
  Two entries of a batch carry the same explicit task id: the condition under which the
  uniqueness check is to reject. An error is a duplicate error when it is the
  \<open>ToolError\<close> whose message starts with \<open>Duplicate task_id\<close>.
\<close>

definition hasDuplicateTaskId :: "TaskInvocation list \<Rightarrow> bool" where
  "hasDuplicateTaskId invocations \<longleftrightarrow>
     (\<exists>i j. i < j \<and> j < length invocations
         \<and> inv_task_id (invocations ! i) \<noteq> None
         \<and> inv_task_id (invocations ! i) = inv_task_id (invocations ! j))"

definition isDuplicateError :: "thrown + unit \<Rightarrow> bool" where
  "isDuplicateError r \<longleftrightarrow> (\<exists>message. r = Inl (ToolError message) \<and> prefix ''Duplicate task_id'' message)"

definition allKnown :: "Agent list \<Rightarrow> TaskInvocation list \<Rightarrow> bool" where
  "allKnown candidates tasks \<longleftrightarrow>
     (\<forall>task \<in> set tasks. inv_subagent_type task \<in> agent_name ` set candidates)"

text \<open>
  \<open>parallel_tasks ?? []\<close>, the batch of a call, and two of the built-in subagents for
  the examples.
\<close>

definition batch :: "TaskArguments \<Rightarrow> TaskInvocation list" where
  "batch args = (case parallel_tasks args of Some tasks \<Rightarrow> tasks | None \<Rightarrow> [])"

definition general :: Agent where
  "general = \<lparr>agent_name = ''general'', agent_description = None\<rparr>"

definition explore :: Agent where
  "explore = \<lparr>agent_name = ''explore'', agent_description = None\<rparr>"

text \<open>
  The user entries a resuming invocation appends, the outcome of the subagent run on the
  resumed session, the peer summaries of a call, and the states and calls of the examples.
\<close>

definition promptItems :: "TaskInvocation \<Rightarrow> PeerContext option \<Rightarrow> nat \<Rightarrow> HistoryItem list" where
  "promptItems invocation peer i =
     (let text = trim ((case peer of Some p \<Rightarrow> buildParallelAwarenessPrefix invocation p | None \<Rightarrow> [])
                       @ inv_prompt invocation)
      in if text = [] then [] else [UserItem i text])"

definition resumedOutcome ::
  "Env \<Rightarrow> TaskInvocation \<Rightarrow> Agent \<Rightarrow> string \<Rightarrow> TaskSession \<Rightarrow> thrown + TaskObservation" where
  "resumedOutcome env invocation subagent task session =
     (case runSubagentUntilPause env subagent session of
        (finalHistory, Inl e) \<Rightarrow> Inl e
      | (finalHistory, Inr answer) \<Rightarrow>
          Inr \<lparr>obs_taskId = task,
                obs_subagentName = inv_subagent_type invocation,
                obs_description = inv_description invocation,
                obs_trace = summarizeTaskTrace env finalHistory,
                obs_result = answer\<rparr>)"

definition idleEnv :: Env where
  "idleEnv =
     \<lparr>runSubagentUntilPause = (\<lambda>agent session. (session_history session, Inr ''done'')),
      summarizeTaskTrace = (\<lambda>h. [])\<rparr>"

definition firstSession :: TaskSession where
  "firstSession =
     \<lparr>session_id = ''t1'', session_subagentName = ''general'',
      session_history = [UserItem 0 ''first prompt'']\<rparr>"

definition oneSessionWorld :: World where
  "oneSessionWorld = \<lparr>taskSessions = [(''t1'', firstSession)], nextSequenceId = 1\<rparr>"

definition resumeWith :: "string \<Rightarrow> string \<Rightarrow> TaskInvocation" where
  "resumeWith subagent text =
     \<lparr>inv_description = ''resume'', inv_prompt = text, inv_subagent_type = subagent,
      inv_task_id = Some ''t1''\<rparr>"

text \<open>
  A trace summary for the examples: the kinds of the entries, one per line. An environment
  in which every run on \<open>explore\<close> throws and every other run answers \<open>done\<close> without
  touching a session, and one in which every started run pushes its answer onto its session
  and all invocations are resumed after the last push.
\<close>

fun kindOf :: "HistoryItem \<Rightarrow> string" where
  "kindOf (UserItem i text) = ''[user]''"
| "kindOf (AssistantItem i text reasoning openai anthropic) = ''[assistant]''"
| "kindOf other = ''[other]''"

definition kindsEnv :: Env where
  "kindsEnv =
     \<lparr>runSubagentUntilPause = (\<lambda>agent session. (session_history session, Inr ''done'')),
      summarizeTaskTrace = (\<lambda>h. join_lines (map kindOf h))\<rparr>"

definition exploreThrows :: Interleaving where
  "exploreThrows =
     \<lparr>awaited =
        (\<lambda>starts store index.
           (case starts ! index of
              Inl e \<Rightarrow> (Inl e, store)
            | Inr (agent, task, address) \<Rightarrow>
                (if agent_name agent = ''explore'' then Inl (OtherError ''Error'' ''boom'')
                 else Inr ''done'', store))),
      settledStore = (\<lambda>starts store. store)\<rparr>"

fun pushAnswers :: "started list \<Rightarrow> Store \<Rightarrow> Store" where
  "pushAnswers [] store = store"
| "pushAnswers (Inl e # rest) store = pushAnswers rest store"
| "pushAnswers (Inr (agent, task, address) # rest) store =
     pushAnswers rest
       (store\<lparr>store_objects :=
          (store_objects store)[address :=
             (store_objects store ! address)\<lparr>session_history :=
                session_history (store_objects store ! address)
                  @ [AssistantItem (store_sequenceId store) ''done'' None None None]\<rparr>],
          store_sequenceId := store_sequenceId store + 1\<rparr>)"

definition lockstep :: Interleaving where
  "lockstep =
     \<lparr>awaited = (\<lambda>starts store index. (Inr ''done'', pushAnswers starts store)),
      settledStore = pushAnswers\<rparr>"

text \<open>
  A batch of three on a table that holds the session \<open>t1\<close> of \<open>general\<close>: the first
  invocation is answered, the subagent of the second throws, and the third resumes \<open>t1\<close>
  with another subagent. And a batch of two in which the explicit task id of the second
  invocation is the id derived for the first.
\<close>

definition threeTasks :: TaskArguments where
  "threeTasks =
     \<lparr>arg_description = ''delegate'', arg_prompt = ''do work'', arg_subagent_type = ''general'',
      arg_task_id = None,
      parallel_tasks = Some
        [\<lparr>inv_description = ''first'', inv_prompt = ''scan first'',
          inv_subagent_type = ''general'', inv_task_id = Some ''a''\<rparr>,
         \<lparr>inv_description = ''second'', inv_prompt = ''scan second'',
          inv_subagent_type = ''explore'', inv_task_id = None\<rparr>,
         \<lparr>inv_description = ''third'', inv_prompt = ''scan third'',
          inv_subagent_type = ''explore'', inv_task_id = Some ''t1''\<rparr>]\<rparr>"

definition collidingTasks :: TaskArguments where
  "collidingTasks =
     \<lparr>arg_description = ''delegate'', arg_prompt = ''do work'', arg_subagent_type = ''general'',
      arg_task_id = None,
      parallel_tasks = Some
        [\<lparr>inv_description = ''first'', inv_prompt = ''scan first'',
          inv_subagent_type = ''general'', inv_task_id = None\<rparr>,
         \<lparr>inv_description = ''second'', inv_prompt = ''scan second'',
          inv_subagent_type = ''general'', inv_task_id = Some ''task_call_0''\<rparr>]\<rparr>"

definition emptyWorld :: World where
  "emptyWorld = \<lparr>taskSessions = [], nextSequenceId = 0\<rparr>"

section \<open>The trajectory arc (agent/trajectory-arc.ts)\<close>

text \<open>
  A tool call request. The arguments object is a list of keys with their JSON values;
  \<open>{...a, ...b}\<close> is \<open>spread a b\<close>.
\<close>

record ToolCallRequest =
  toolCallId :: string
  fn_name :: string
  fn_arguments :: "(string \<times> string) list"

definition spread :: "(string \<times> string) list \<Rightarrow> (string \<times> string) list \<Rightarrow> (string \<times> string) list" where
  "spread a b = foldl (\<lambda>m (k, v). map_set k v m) a b"

text \<open>
  The IR items the arc reads and writes, by their \<open>role\<close>. \<open>InputIR\<close> stands for the
  items of the message log that the arc only passes on (user text, tool output, ...).
\<close>

datatype IR =
    AssistantIR string "string option" "ToolCallRequest option" nat nat
  | ToolMalformedIR string
  | CompactionCheckpointIR string
  | FileOutdatedIR ToolCallRequest string
  | FileUnreadableIR string ToolCallRequest string
  | ToolErrorIR string string string
  | InputIR string

fun isToolMalformed :: "IR \<Rightarrow> bool" where
  "isToolMalformed (ToolMalformedIR e) = True"
| "isToolMalformed ir = False"

text \<open>\<open>const { toolCall } = lastIr\<close>.\<close>

fun toolCallOf :: "IR \<Rightarrow> ToolCallRequest option" where
  "toolCallOf (AssistantIR content reasoningContent toolCall tokenUsage outputTokens) = toolCall"
| "toolCallOf (FileOutdatedIR toolCall e) = Some toolCall"
| "toolCallOf (FileUnreadableIR path toolCall e) = Some toolCall"
| "toolCallOf ir = None"

text \<open>The same item after \<open>toolCall.function.arguments\<close> has been assigned to.\<close>

fun withToolCall :: "ToolCallRequest \<Rightarrow> IR \<Rightarrow> IR" where
  "withToolCall tc (AssistantIR content reasoningContent toolCall tokenUsage outputTokens) =
     AssistantIR content reasoningContent (Some tc) tokenUsage outputTokens"
| "withToolCall tc (FileOutdatedIR toolCall e) = FileOutdatedIR tc e"
| "withToolCall tc (FileUnreadableIR path toolCall e) = FileUnreadableIR path tc e"
| "withToolCall tc ir = ir"

datatype Reason =
    Abort
  | NeedsResponse
  | RequestTool ToolCallRequest
  | RequestError string string

record Finish =
  finish_irs :: "IR list"
  finish_reason :: Reason

datatype TokenType = ReasoningToken | ContentToken | ToolToken

record AssistantBuffer =
  buf_reasoning :: "string option"
  buf_content :: "string option"
  buf_tool :: "string option"

definition MAX_TRAJECTORY_BUFFER_CONTENT_CHARS :: nat where
  "MAX_TRAJECTORY_BUFFER_CONTENT_CHARS = 500000"

definition MAX_TRAJECTORY_BUFFER_REASONING_CHARS :: nat where
  "MAX_TRAJECTORY_BUFFER_REASONING_CHARS = 200000"

definition MAX_TRAJECTORY_BUFFER_TOOL_CHARS :: nat where
  "MAX_TRAJECTORY_BUFFER_TOOL_CHARS = 500000"

definition appendCapped :: "string \<Rightarrow> string \<Rightarrow> nat \<Rightarrow> string" where
  "appendCapped base addition maxChars =
     (if length addition = 0 \<or> maxChars \<le> 0 then base
      else if length base \<ge> maxChars then base
      else
        (let remaining = maxChars - length base in
         if length addition \<le> remaining then base @ addition
         else base @ take remaining addition))"

fun bufferCap :: "TokenType \<Rightarrow> nat" where
  "bufferCap ReasoningToken = MAX_TRAJECTORY_BUFFER_REASONING_CHARS"
| "bufferCap ToolToken = MAX_TRAJECTORY_BUFFER_TOOL_CHARS"
| "bufferCap ContentToken = MAX_TRAJECTORY_BUFFER_CONTENT_CHARS"

text \<open>The \<open>onTokens\<close> handler: \<open>buffer[type] = appendCapped(buffer[type] ?? "", tokens, cap)\<close>.\<close>

definition orEmpty :: "string option \<Rightarrow> string" where
  "orEmpty v = (case v of Some t \<Rightarrow> t | None \<Rightarrow> [])"

fun onTokens :: "AssistantBuffer \<Rightarrow> (string \<times> TokenType) \<Rightarrow> AssistantBuffer" where
  "onTokens buffer (tokens, ReasoningToken) =
     buffer\<lparr>buf_reasoning :=
       Some (appendCapped (orEmpty (buf_reasoning buffer)) tokens (bufferCap ReasoningToken))\<rparr>"
| "onTokens buffer (tokens, ContentToken) =
     buffer\<lparr>buf_content :=
       Some (appendCapped (orEmpty (buf_content buffer)) tokens (bufferCap ContentToken))\<rparr>"
| "onTokens buffer (tokens, ToolToken) =
     buffer\<lparr>buf_tool :=
       Some (appendCapped (orEmpty (buf_tool buffer)) tokens (bufferCap ToolToken))\<rparr>"

definition emptyBuffer :: AssistantBuffer where
  "emptyBuffer = \<lparr>buf_reasoning = None, buf_content = None, buf_tool = None\<rparr>"

text \<open>\<open>maybeBufferedMessage\<close>; a buffer entry is truthy when it is a non-empty string.\<close>

definition maybeBufferedMessage :: "AssistantBuffer \<Rightarrow> IR list \<Rightarrow> IR list" where
  "maybeBufferedMessage buffer irs =
     (if \<not> falsy (buf_content buffer) \<or> \<not> falsy (buf_reasoning buffer) \<or> \<not> falsy (buf_tool buffer)
      then
        (let content = orEmpty (buf_content buffer);
             pendingToolContent = buf_tool buffer
         in irs @
            [AssistantIR
               (if \<not> falsy pendingToolContent
                then content @ [CHR 0x0A] @ ''<partial_tool_call>'' @ orEmpty pendingToolContent
                       @ ''</partial_tool_call>''
                else content)
               (buf_reasoning buffer) None 0 0])
      else [])"

definition abort :: "IR list \<Rightarrow> Finish" where
  "abort irs = \<lparr>finish_irs = irs, finish_reason = Abort\<rparr>"

text \<open>
  The collaborators of the arc: the backend (\<open>run\<close>, which streams tokens and gives the
  parsed output or a request error, both with a replayable \<open>curl\<close>), the auto-compaction
  predicate and summary, tool validation, the file system, the edit autofix, and the abort
  signal, which is read by the number of the read.
\<close>

datatype RunResult = Success "IR list" string | Failure string string

datatype Validation = Valid | Outdated string | ToolFailure string | OtherFailure string

datatype AutofixResult = AutofixThrows | NoFix | Fix "(string \<times> string) list"

record ArcEnv =
  shouldAutoCompactHistory :: "IR list \<Rightarrow> bool"
  generateCompactionSummary :: "IR list \<Rightarrow> string option"
  runModel :: "IR list \<Rightarrow> (string \<times> TokenType) list \<times> RunResult"
  validateTool :: "string \<Rightarrow> (string \<times> string) list \<Rightarrow> Validation"
  readUntracked :: "string \<Rightarrow> bool"
  readFile :: "string option \<Rightarrow> string option"
  autofixEdit :: "string \<Rightarrow> (string \<times> string) list \<Rightarrow> AutofixResult"
  abortedAt :: "nat \<Rightarrow> bool"

text \<open>
  The handler calls the arc makes, in order (the per-token progress calls are not kept),
  and the state the arc runs in: the events so far, the number of reads of the abort
  signal, the number of model turns and of compaction summaries requested from the backend,
  and the retry budget of every invocation of the arc so far.
\<close>

datatype Event =
    StartCompaction
  | CompactionParsed IR
  | StartResponse
  | AutofixingDiff
  | RetryTool "IR list"

record ArcState =
  events :: "Event list"
  abortReads :: nat
  modelTurns :: nat
  summaryRequests :: nat
  arcInvocations :: "int list"

definition emit :: "Event \<Rightarrow> ArcState \<Rightarrow> ArcState" where
  "emit e st = st\<lparr>events := events st @ [e]\<rparr>"

definition readAborted :: "ArcEnv \<Rightarrow> ArcState \<Rightarrow> bool \<times> ArcState" where
  "readAborted env st = (abortedAt env (abortReads st), st\<lparr>abortReads := abortReads st + 1\<rparr>)"

definition maybeAutocompact :: "ArcEnv \<Rightarrow> IR list \<Rightarrow> ArcState \<Rightarrow> IR option \<times> ArcState" where
  "maybeAutocompact env messages st =
     (if \<not> shouldAutoCompactHistory env messages then (None, st)
      else
        (let st1 = emit StartCompaction st;
             checkpointSummary = generateCompactionSummary env messages;
             st2 = st1\<lparr>summaryRequests := summaryRequests st1 + 1\<rparr>
         in case checkpointSummary of
              None \<Rightarrow> (None, st2)
            | Some summary \<Rightarrow> (Some (CompactionCheckpointIR summary), st2)))"

definition tryTransformFileOutdatedError :: "ArcEnv \<Rightarrow> ToolCallRequest \<Rightarrow> string \<Rightarrow> IR" where
  "tryTransformFileOutdatedError env toolCall filePath =
     (if readUntracked env filePath then
        FileOutdatedIR toolCall
          ''File could not be updated because it was modified after being last read. Please read the file again before modifying it.''
      else
        FileUnreadableIR filePath toolCall
          (''File '' @ filePath @ '' could not be read. Has it been deleted?''))"

text \<open>
  The autofix attempt for a failed \<open>edit\<close> call, the \<open>try\<close> block of the arc: the call is
  fixed (its arguments replaced in place), the arc was aborted during the attempt, or
  nothing came of it. Whatever is thrown inside is swallowed by the empty \<open>catch\<close>.
\<close>

datatype AutofixOutcome = Fixed ToolCallRequest | AbortedInFix | NotFixed

definition tryAutofix :: "ArcEnv \<Rightarrow> ToolCallRequest \<Rightarrow> ArcState \<Rightarrow> AutofixOutcome \<times> ArcState" where
  "tryAutofix env toolCall st =
     (if fn_name toolCall = ''edit'' then
        (let st1 = emit AutofixingDiff st;
             path = map_get ''filePath'' (fn_arguments toolCall)
         in case readFile env path of
              None \<Rightarrow> (NotFixed, st1)
            | Some file \<Rightarrow>
                (case autofixEdit env file (fn_arguments toolCall) of
                   AutofixThrows \<Rightarrow> (NotFixed, st1)
                 | NoFix \<Rightarrow>
                     (let (aborted, st2) = readAborted env st1 in
                      if aborted then (AbortedInFix, st2) else (NotFixed, st2))
                 | Fix fix \<Rightarrow>
                     (let (aborted, st2) = readAborted env st1 in
                      if aborted then (AbortedInFix, st2)
                      else
                        (case validateTool env ''edit'' fix of
                           Valid \<Rightarrow>
                             (Fixed (toolCall\<lparr>fn_arguments := spread (fn_arguments toolCall) fix\<rparr>), st2)
                         | _ \<Rightarrow> (NotFixed, st2)))))
      else (NotFixed, st))"

text \<open>
  \<open>trajectoryArc\<close>. The value is the finish, or the message of what the arc throws (a
  validation failure that is neither a stale file nor a \<open>ToolError\<close>).
\<close>

function trajectoryArc ::
  "ArcEnv \<Rightarrow> int \<Rightarrow> IR list \<Rightarrow> ArcState \<Rightarrow> (string + Finish) \<times> ArcState" where
  "trajectoryArc env retryBudget messages st0 =
     (let st = st0\<lparr>arcInvocations := arcInvocations st0 @ [retryBudget]\<rparr>;
          (aborted1, st1) = readAborted env st
      in
      if aborted1 then (Inr (abort []), st1)
      else
        (let (parsedCompaction, st2) = maybeAutocompact env messages st1;
             messagesCopy = (case parsedCompaction of Some cp \<Rightarrow> messages @ [cp] | None \<Rightarrow> messages);
             irs0 = (case parsedCompaction of Some cp \<Rightarrow> [cp] | None \<Rightarrow> []);
             st3 = (case parsedCompaction of Some cp \<Rightarrow> emit (CompactionParsed cp) st2 | None \<Rightarrow> st2);
             (aborted2, st4) = readAborted env st3
         in
         if aborted2 then (Inr (abort []), st4)
         else
           (let st5 = emit StartResponse st4;
                (tokens, result) = runModel env messagesCopy;
                buffer = foldl onTokens emptyBuffer tokens;
                st6 = st5\<lparr>modelTurns := modelTurns st5 + 1\<rparr>;
                (aborted3, st7) = readAborted env st6
            in
            if aborted3 then (Inr (abort (maybeBufferedMessage buffer irs0)), st7)
            else
              (case result of
                 Failure requestError curl \<Rightarrow>
                   (Inr \<lparr>finish_irs = maybeBufferedMessage buffer irs0,
                         finish_reason = RequestError requestError curl\<rparr>, st7)
               | Success output curl \<Rightarrow>
                   if length output = 0 then
                     (Inr \<lparr>finish_irs = maybeBufferedMessage buffer irs0,
                           finish_reason = RequestError ''No response from backend'' curl\<rparr>, st7)
                   else
                     (let irs = irs0 @ output;
                          lastIr = last output
                      in
                      if isToolMalformed lastIr then
                        (if retryBudget \<le> 0 then
                           (Inr \<lparr>finish_irs = irs,
                                 finish_reason = RequestError
                                   ''Too many malformed tool retries in a single response arc. Aborting to prevent runaway memory growth.''
                                   curl\<rparr>, st7)
                         else
                           (let (retried, st9) =
                                  trajectoryArc env (retryBudget - 1) (messagesCopy @ irs)
                                    (emit (RetryTool irs) st7)
                            in case retried of
                                 Inl e \<Rightarrow> (Inl e, st9)
                               | Inr f \<Rightarrow>
                                   (Inr \<lparr>finish_irs = irs @ finish_irs f,
                                         finish_reason = finish_reason f\<rparr>, st9)))
                      else
                        (case toolCallOf lastIr of
                           None \<Rightarrow> (Inr \<lparr>finish_irs = irs, finish_reason = NeedsResponse\<rparr>, st7)
                         | Some toolCall \<Rightarrow>
                             (case validateTool env (fn_name toolCall) (fn_arguments toolCall) of
                                Valid \<Rightarrow>
                                  (Inr \<lparr>finish_irs = irs, finish_reason = RequestTool toolCall\<rparr>, st7)
                              | Outdated filePath \<Rightarrow>
                                  (let errorIrs = tryTransformFileOutdatedError env toolCall filePath;
                                       retryIrs = irs @ [errorIrs]
                                   in
                                   if retryBudget \<le> 0 then
                                     (Inr \<lparr>finish_irs = retryIrs,
                                           finish_reason = RequestError
                                             ''Too many tool retry attempts in a single response arc. Aborting to prevent runaway memory growth.''
                                             curl\<rparr>, st7)
                                   else
                                     (let (retried, st9) =
                                            trajectoryArc env (retryBudget - 1) (messagesCopy @ retryIrs)
                                              (emit (RetryTool retryIrs) st7)
                                      in case retried of
                                           Inl e \<Rightarrow> (Inl e, st9)
                                         | Inr f \<Rightarrow>
                                             (Inr \<lparr>finish_irs = irs @ finish_irs f,
                                                   finish_reason = finish_reason f\<rparr>, st9)))
                              | OtherFailure e \<Rightarrow> (Inl e, st7)
                              | ToolFailure message \<Rightarrow>
                                  (let (fixed, st8) = tryAutofix env toolCall st7 in
                                   case fixed of
                                     AbortedInFix \<Rightarrow>
                                       (Inr (abort
                                          (butlast irs @
                                           [ToolErrorIR (toolCallId toolCall) (fn_name toolCall) message])),
                                        st8)
                                   | Fixed toolCall' \<Rightarrow>
                                       (Inr \<lparr>finish_irs = butlast irs @ [withToolCall toolCall' lastIr],
                                             finish_reason = RequestTool toolCall'\<rparr>, st8)
                                   | NotFixed \<Rightarrow>
                                       (let retryIrs =
                                              irs @ [ToolErrorIR (toolCallId toolCall)
                                                       (fn_name toolCall) message]
                                        in
                                        if retryBudget \<le> 0 then
                                          (Inr \<lparr>finish_irs = retryIrs,
                                                finish_reason = RequestError
                                                  ''Too many tool retry attempts in a single response arc. Aborting to prevent runaway memory growth.''
                                                  curl\<rparr>, st8)
                                        else
                                          (let (retried, st9) =
                                                 trajectoryArc env (retryBudget - 1)
                                                   (messagesCopy @ retryIrs)
                                                   (emit (RetryTool retryIrs) st8)
                                           in case retried of
                                                Inl e \<Rightarrow> (Inl e, st9)
                                              | Inr f \<Rightarrow>
                                                  (Inr \<lparr>finish_irs = irs @ finish_irs f,
                                                        finish_reason = finish_reason f\<rparr>,
                                                   st9)))))))))))"
  by pat_completeness auto
termination
  by (relation "measure (\<lambda>(env, retryBudget, messages, st). nat retryBudget)") auto

declare trajectoryArc.simps [simp del]

text \<open>
  What one arc contributes when it is not aborted: the checkpoint of an auto-compaction
  (if one is due and the summary is produced), the message log the model sees, which is the
  log with that checkpoint appended, and the output of the arc, which is the checkpoint
  followed by the output of the model turn. \<open>retryOutputs env n messages\<close> is the output of
  an arc followed by the outputs of \<open>n\<close> retries, each started on the message log of the
  arc before it with that arc's output appended.
\<close>

definition compactionOf :: "ArcEnv \<Rightarrow> IR list \<Rightarrow> IR list" where
  "compactionOf env messages =
     (if shouldAutoCompactHistory env messages then
        (case generateCompactionSummary env messages of
           Some summary \<Rightarrow> [CompactionCheckpointIR summary]
         | None \<Rightarrow> [])
      else [])"

definition arcMessages :: "ArcEnv \<Rightarrow> IR list \<Rightarrow> IR list" where
  "arcMessages env messages = messages @ compactionOf env messages"

definition turnOutput :: "ArcEnv \<Rightarrow> IR list \<Rightarrow> IR list" where
  "turnOutput env messages =
     (case snd (runModel env (arcMessages env messages)) of
        Success output curl \<Rightarrow> output
      | Failure requestError curl \<Rightarrow> [])"

definition arcOutput :: "ArcEnv \<Rightarrow> IR list \<Rightarrow> IR list" where
  "arcOutput env messages = compactionOf env messages @ turnOutput env messages"

fun retryOutputs :: "ArcEnv \<Rightarrow> nat \<Rightarrow> IR list \<Rightarrow> IR list" where
  "retryOutputs env 0 messages = arcOutput env messages"
| "retryOutputs env (Suc n) messages =
     arcOutput env messages
     @ retryOutputs env n (arcMessages env messages @ arcOutput env messages)"

text \<open>
  The backend only emits malformed tool calls: every model turn succeeds with a non-empty
  output whose last item is a malformed tool call. The abort signal is never set.
\<close>

definition onlyMalformed :: "ArcEnv \<Rightarrow> bool" where
  "onlyMalformed env \<longleftrightarrow>
     (\<forall>messages. \<exists>tokens output curl.
        runModel env messages = (tokens, Success output curl)
        \<and> output \<noteq> [] \<and> isToolMalformed (last output))"

definition neverAborted :: "ArcEnv \<Rightarrow> bool" where
  "neverAborted env \<longleftrightarrow> (\<forall>n. \<not> abortedAt env n)"

definition tooManyMalformed :: string where
  "tooManyMalformed =
     ''Too many malformed tool retries in a single response arc. Aborting to prevent runaway memory growth.''"

text \<open>A backend that answers every turn with one malformed tool call, and the initial state.\<close>

definition malformedEnv :: ArcEnv where
  "malformedEnv =
     \<lparr>shouldAutoCompactHistory = (\<lambda>messages. False),
      generateCompactionSummary = (\<lambda>messages. None),
      runModel = (\<lambda>messages. ([], Success [ToolMalformedIR ''bad json''] ''curl'')),
      validateTool = (\<lambda>name arguments. Valid),
      readUntracked = (\<lambda>path. True),
      readFile = (\<lambda>path. None),
      autofixEdit = (\<lambda>file arguments. NoFix),
      abortedAt = (\<lambda>n. False)\<rparr>"

definition freshState :: ArcState where
  "freshState =
     \<lparr>events = [], abortReads = 0, modelTurns = 0, summaryRequests = 0, arcInvocations = []\<rparr>"

section \<open>Properties\<close>

subsection \<open>History compaction\<close>

lemma sizeOf_sum: "sizeOf xs = sum_list (map estimateHistoryItemSize xs)"
proof -
  have "foldl (\<lambda>sum entry. sum + estimateHistoryItemSize entry) a xs
          = a + sum_list (map estimateHistoryItemSize xs)" for a
    by (induction xs arbitrary: a) auto
  then show ?thesis by (simp add: sizeOf_def)
qed

lemma sizeOf_splice1:
  "i < length xs \<Longrightarrow> sizeOf (splice1 i xs) = sizeOf xs - estimateHistoryItemSize (xs ! i)"
proof -
  assume "i < length xs"
  then have "xs = take i xs @ xs ! i # drop (Suc i) xs"
    by (simp add: id_take_nth_drop)
  then have "sizeOf xs = sizeOf (take i xs) + estimateHistoryItemSize (xs ! i) + sizeOf (drop (Suc i) xs)"
    by (metis (no_types, lifting) sizeOf_sum map_append sum_list_append list.simps(9) sum_list.Cons add.assoc)
  then show ?thesis by (simp add: splice1_def sizeOf_sum)
qed

lemma evictLoop_length: "length (evictLoop k xs t) \<le> 80"
proof (induction k xs t rule: evictLoop.induct)
  case (1 k xs t)
  let ?p = "if k then 1 else 0 :: nat"
  show ?case
  proof (cases "(length xs > MAX_SUBAGENT_HISTORY_ITEMS \<or> t > MAX_SUBAGENT_HISTORY_CHARS) \<and> length xs \<ge> Suc ?p")
    case False
    then have "evictLoop k xs t = xs"
      by (subst evictLoop.simps) (auto simp: Let_def)
    moreover from False have "length xs \<le> 80"
      by (auto simp: MAX_SUBAGENT_HISTORY_ITEMS_def split: if_splits)
    ultimately show ?thesis by simp
  next
    case True
    then have lt: "?p < length xs" by auto
    from True have eq: "evictLoop k xs t = evictLoop k (splice1 ?p xs) (t - estimateHistoryItemSize (xs ! ?p))"
      by (subst evictLoop.simps) (auto simp: Let_def)
    from "1.IH"[OF refl _ refl] True lt
    have "length (evictLoop k (splice1 ?p xs) (t - estimateHistoryItemSize (xs ! ?p))) \<le> 80"
      by (auto split: if_splits)
    then show ?thesis using eq by simp
  qed
qed

lemma evictLoop_shape:
  "\<exists>n. evictLoop k xs t = take (if k then 1 else 0) xs @ drop ((if k then 1 else 0) + n) xs"
proof (induction k xs t rule: evictLoop.induct)
  case (1 k xs t)
  let ?p = "if k then 1 else 0 :: nat"
  show ?case
  proof (cases "(length xs > MAX_SUBAGENT_HISTORY_ITEMS \<or> t > MAX_SUBAGENT_HISTORY_CHARS) \<and> length xs \<ge> Suc ?p")
    case False
    then have "evictLoop k xs t = xs"
      by (subst evictLoop.simps) (auto simp: Let_def)
    then have "evictLoop k xs t = take ?p xs @ drop (?p + 0) xs" by simp
    then show ?thesis by blast
  next
    case True
    then have lt: "?p < length xs" by auto
    from True have eq: "evictLoop k xs t = evictLoop k (splice1 ?p xs) (t - estimateHistoryItemSize (xs ! ?p))"
      by (subst evictLoop.simps) (auto simp: Let_def)
    from "1.IH"[OF refl _ refl] True lt obtain n where
      n: "evictLoop k (splice1 ?p xs) (t - estimateHistoryItemSize (xs ! ?p))
           = take ?p (splice1 ?p xs) @ drop (?p + n) (splice1 ?p xs)"
      by (auto split: if_splits)
    have "take ?p (splice1 ?p xs) = take ?p xs" using lt by (simp add: splice1_def)
    moreover have "drop (?p + n) (splice1 ?p xs) = drop (?p + Suc n) xs"
      using lt by (simp add: splice1_def min_def drop_Suc drop_tl add.commute)
    ultimately show ?thesis using eq n by metis
  qed
qed

lemma evictLoop_size:
  "t = sizeOf xs \<Longrightarrow>
     sizeOf (evictLoop k xs t) \<le> 140000 \<or> evictLoop k xs t = take (if k then 1 else 0) xs"
proof (induction k xs t rule: evictLoop.induct)
  case (1 k xs t)
  let ?p = "if k then 1 else 0 :: nat"
  show ?case
  proof (cases "(length xs > MAX_SUBAGENT_HISTORY_ITEMS \<or> t > MAX_SUBAGENT_HISTORY_CHARS) \<and> length xs \<ge> Suc ?p")
    case False
    then have eq: "evictLoop k xs t = xs"
      by (subst evictLoop.simps) (auto simp: Let_def)
    show ?thesis
    proof (cases "length xs \<ge> Suc ?p")
      case True
      with False have "t \<le> 140000" by (auto simp: MAX_SUBAGENT_HISTORY_CHARS_def)
      then show ?thesis using eq "1.prems" by simp
    next
      case False
      then have "take ?p xs = xs" by auto
      then show ?thesis using eq by simp
    qed
  next
    case True
    then have lt: "?p < length xs" by auto
    from True have eq: "evictLoop k xs t = evictLoop k (splice1 ?p xs) (t - estimateHistoryItemSize (xs ! ?p))"
      by (subst evictLoop.simps) (auto simp: Let_def)
    have sz: "t - estimateHistoryItemSize (xs ! ?p) = sizeOf (splice1 ?p xs)"
      using lt "1.prems" by (simp add: sizeOf_splice1)
    have tk: "take ?p (splice1 ?p xs) = take ?p xs" using lt by (simp add: splice1_def)
    from "1.IH"[OF refl _ refl _ sz] True lt
    have "sizeOf (evictLoop k (splice1 ?p xs) (t - estimateHistoryItemSize (xs ! ?p))) \<le> 140000
       \<or> evictLoop k (splice1 ?p xs) (t - estimateHistoryItemSize (xs ! ?p)) = take ?p (splice1 ?p xs)"
      by (auto split: if_splits)
    then show ?thesis using eq tk by metis
  qed
qed

lemma length_trim_le: "length (trim s) \<le> length s"
proof -
  have "length (dropWhile is_space (rev (dropWhile is_space s))) \<le> length (rev (dropWhile is_space s))"
    by (rule length_dropWhile_le)
  also have "\<dots> \<le> length s" by (simp add: length_dropWhile_le)
  finally show ?thesis by (simp add: trim_def)
qed

lemma sanitizeLiveText_length: "length (sanitizeLiveText s n) \<le> n + 16"
  by (simp add: sanitizeLiveText_def Let_def)

lemma sanitizeLiveText_prefix: "prefix (take n (trim s)) (sanitizeLiveText s n)"
  by (simp add: sanitizeLiveText_def Let_def)

lemma truncateSubagentToolContent_length: "length (truncateSubagentToolContent s n) \<le> n + 37"
  by (simp add: truncateSubagentToolContent_def)

lemma truncateSubagentToolContent_prefix: "prefix (take n s) (truncateSubagentToolContent s n)"
  by (simp add: truncateSubagentToolContent_def)

lemma withinCaps_trimItem: "withinCaps (trimItem x)"
proof (cases x)
  case (AssistantItem i c r o a)
  then show ?thesis
    using sanitizeLiveText_length[of c 24000]
    by (cases r)
       (auto simp: trimItem_def withinCaps_def MAX_SUBAGENT_ASSISTANT_CONTENT_CHARS_def
             intro: order_trans[OF sanitizeLiveText_length])
next
  case (ToolOutputItem i c l t)
  then show ?thesis
    using truncateSubagentToolContent_length[of c 24000]
    by (auto simp: trimItem_def withinCaps_def Let_def MAX_SUBAGENT_TOOL_CONTENT_CHARS_def
             truncateSubagentToolContent_def)
qed (auto simp: trimItem_def withinCaps_def)

lemma visibleTextKept_trimItem: "visibleTextKept x (trimItem x)"
proof (cases x)
  case (AssistantItem i c r o a)
  then show ?thesis
    by (cases r)
       (auto simp: trimItem_def visibleTextKept_def MAX_SUBAGENT_ASSISTANT_CONTENT_CHARS_def
             sanitizeLiveText_prefix)
next
  case (ToolOutputItem i c l t)
  then show ?thesis
    using truncateSubagentToolContent_prefix[of 24000 c]
    by (auto simp: trimItem_def visibleTextKept_def Let_def MAX_SUBAGENT_TOOL_CONTENT_CHARS_def
             take_is_prefix)
qed (auto simp: trimItem_def visibleTextKept_def)

lemma isUser_trimItem: "isUser (trimItem x) = isUser x"
  by (cases x) (auto simp: trimItem_def isUser_def Let_def)

lemma trimItem_user: "isUser x \<Longrightarrow> trimItem x = x"
  by (cases x) (auto simp: trimItem_def isUser_def)

lemma keepFirstUser_eq:
  "(case map trimItem h of [] \<Rightarrow> False | first # _ \<Rightarrow> isUser first) = seedPinned h"
  by (cases h) (auto simp: seedPinned_def isUser_trimItem)

lemma take1_trimmed: "seedPinned h \<Longrightarrow> take (Suc 0) (map trimItem h) = take (Suc 0) h"
  by (cases h) (auto simp: seedPinned_def trimItem_user)

text \<open>
  Claim C8, as amended. For every history, \<open>compactSubagentHistory\<close> returns at most 80
  entries; the result is the pinned seed (an initial user message, kept as it is) followed by
  the compacted entries that remain after a block of the oldest other entries has been
  dropped, or just those remaining entries when there is no seed; its estimated size is at
  most 140000 characters unless only the pinned seed remains; every entry of the result has
  its provider metadata removed and its assistant text, reasoning and tool output within the
  24000-character cap plus the truncation marker; and compacting an entry keeps its visible
  text up to that cap.
\<close>

theorem compactSubagentHistory_ceilings:
  "length (compactSubagentHistory h) \<le> 80
   \<and> (\<exists>n. compactSubagentHistory h =
          (if seedPinned h then take 1 h @ map trimItem (drop (Suc n) h)
           else map trimItem (drop n h)))
   \<and> (sizeOf (compactSubagentHistory h) \<le> 140000
        \<or> (seedPinned h \<and> compactSubagentHistory h = take 1 h))
   \<and> (\<forall>item \<in> set (compactSubagentHistory h). withinCaps item)
   \<and> (\<forall>x. visibleTextKept x (trimItem x))"
proof -
  let ?k = "seedPinned h"
  let ?t = "map trimItem h"
  have c: "compactSubagentHistory h = evictLoop ?k ?t (sizeOf ?t)"
    by (simp add: compactSubagentHistory_def Let_def keepFirstUser_eq)
  obtain n where n: "evictLoop ?k ?t (sizeOf ?t)
      = take (if ?k then 1 else 0) ?t @ drop ((if ?k then 1 else 0) + n) ?t"
    using evictLoop_shape by blast
  have shape: "compactSubagentHistory h =
          (if ?k then take 1 h @ map trimItem (drop (Suc n) h) else map trimItem (drop n h))"
    using c n by (simp add: take1_trimmed drop_map)
  have size: "sizeOf (compactSubagentHistory h) \<le> 140000
        \<or> (?k \<and> compactSubagentHistory h = take 1 h)"
  proof -
    from evictLoop_size[OF refl, of ?k ?t]
    have "sizeOf (compactSubagentHistory h) \<le> 140000
       \<or> compactSubagentHistory h = take (if ?k then 1 else 0) ?t"
      unfolding c .
    then show ?thesis
      by (cases ?k) (auto simp: take1_trimmed sizeOf_def)
  qed
  have caps: "\<forall>item \<in> set (compactSubagentHistory h). withinCaps item"
  proof
    fix item assume "item \<in> set (compactSubagentHistory h)"
    then have "item \<in> set ?t"
      unfolding c n by (auto dest: in_set_takeD in_set_dropD)
    then show "withinCaps item" by (auto simp: withinCaps_trimItem)
  qed
  show ?thesis
    using evictLoop_length[of ?k ?t "sizeOf ?t"] shape size caps visibleTextKept_trimItem
    unfolding c[symmetric] by blast
qed

text \<open>The theorem at a two-entry history with a seed and an assistant answer.\<close>

theorem compactSubagentHistory_ceilings_witness:
  "compactSubagentHistory
     [UserItem 0 ''seed'', AssistantItem 1 '' hi '' (Some ''why'') (Some ''{}'') None]
   = [UserItem 0 ''seed'', AssistantItem 1 ''hi'' (Some ''why'') None None]
   \<and> withinCaps (AssistantItem 1 ''hi'' (Some ''why'') None None)"
proof -
  let ?h = "[UserItem 0 ''seed'', AssistantItem 1 '' hi '' (Some ''why'') (Some ''{}'') None]"
  have e: "compactSubagentHistory ?h
             = [UserItem 0 ''seed'', AssistantItem 1 ''hi'' (Some ''why'') None None]"
    by (simp add: compactSubagentHistory_def trimItem_def isUser_def sizeOf_def evictLoop.simps
        sanitizeLiveText_def trim_def is_space_def safeJsonLength_def Let_def
        MAX_SUBAGENT_HISTORY_ITEMS_def MAX_SUBAGENT_HISTORY_CHARS_def
        MAX_SUBAGENT_ASSISTANT_CONTENT_CHARS_def)
  from compactSubagentHistory_ceilings[of ?h]
  have "\<forall>item \<in> set (compactSubagentHistory ?h). withinCaps item" by blast
  then have "withinCaps (AssistantItem 1 ''hi'' (Some ''why'') None None)"
    unfolding e by simp
  with e show ?thesis by simp
qed

text \<open>
  Claim C8 as stated fails: a pinned seed of 140001 characters is never evicted or cut, so the
  result is over the character ceiling.
\<close>

theorem compactSubagentHistory_char_ceiling_counterexample:
  "\<not> sizeOf (compactSubagentHistory [UserItem 0 (replicate 140001 CHR ''a'')]) \<le> 140000"
  by (simp add: compactSubagentHistory_def trimItem_def isUser_def sizeOf_def evictLoop.simps
      MAX_SUBAGENT_HISTORY_ITEMS_def MAX_SUBAGENT_HISTORY_CHARS_def)


subsection \<open>Session store\<close>

lemma map_delete_head:
  "k \<notin> fst ` set rest \<Longrightarrow> map_delete k ((k, s) # rest) = rest"
  by (auto simp: map_delete_def filter_id_conv)

lemma evictSessions_drop:
  "distinct (map fst tbl) \<Longrightarrow> [] \<notin> fst ` set tbl \<Longrightarrow>
     evictSessions tbl = drop (length tbl - MAX_TASK_SESSIONS) tbl"
proof (induction tbl)
  case Nil
  show ?case by (subst evictSessions.simps) simp
next
  case (Cons e rest)
  obtain k s where e: "e = (k, s)" by (cases e)
  show ?case
  proof (cases "length (e # rest) > MAX_TASK_SESSIONS")
    case False
    then show ?thesis by (subst evictSessions.simps) simp
  next
    case True
    from Cons.prems e have k: "k \<noteq> []" "k \<notin> fst ` set rest" by auto
    have "evictSessions (e # rest) = evictSessions rest"
      using True k e by (subst evictSessions.simps) (simp add: map_delete_head)
    also have "\<dots> = drop (length rest - MAX_TASK_SESSIONS) rest"
      using Cons.IH Cons.prems by auto
    also have "\<dots> = drop (length (e # rest) - MAX_TASK_SESSIONS) (e # rest)"
      using True by (simp add: Suc_diff_le drop_Cons')
    finally show ?thesis .
  qed
qed

lemma map_delete_props:
  "distinct (map fst m) \<Longrightarrow> distinct (map fst (map_delete k m))"
  "fst ` set (map_delete k m) = fst ` set m - {k}"
  "length (map_delete k m) \<le> length m"
  by (auto simp: map_delete_def distinct_map_filter)

lemma storeTaskSession_evicts_oldest:
  assumes "distinct (map fst tbl)" "[] \<notin> fst ` set tbl" "taskId \<noteq> []"
  shows "length (storeTaskSession taskId session tbl) \<le> MAX_TASK_SESSIONS"
    and "storeTaskSession taskId session tbl =
           (let tbl2 = map_delete taskId tbl @ [(taskId, session)]
            in drop (length tbl2 - MAX_TASK_SESSIONS) tbl2)"
proof -
  let ?tbl1 = "if map_has taskId tbl then map_delete taskId tbl else tbl"
  have t1: "?tbl1 = map_delete taskId tbl"
  proof (cases "map_has taskId tbl")
    case False
    then have "filter (\<lambda>e. fst e \<noteq> taskId) tbl = tbl"
      by (intro filter_True) (auto simp: map_has_def)
    then show ?thesis using False by (simp add: map_delete_def)
  qed simp
  have nh: "\<not> map_has taskId (map_delete taskId tbl)"
    by (simp add: map_has_def map_delete_props)
  have t2: "map_set taskId session ?tbl1 = map_delete taskId tbl @ [(taskId, session)]"
    unfolding t1 using nh by (simp add: map_set_def)
  have d: "distinct (map fst (map_delete taskId tbl @ [(taskId, session)]))"
    using assms(1) by (auto simp: map_delete_props)
  have e: "[] \<notin> fst ` set (map_delete taskId tbl @ [(taskId, session)])"
    using assms(2,3) by (auto simp: map_delete_props)
  show eq: "storeTaskSession taskId session tbl =
           (let tbl2 = map_delete taskId tbl @ [(taskId, session)]
            in drop (length tbl2 - MAX_TASK_SESSIONS) tbl2)"
    unfolding storeTaskSession_def Let_def t2 using evictSessions_drop[OF d e] .
  show "length (storeTaskSession taskId session tbl) \<le> MAX_TASK_SESSIONS"
    unfolding eq Let_def by simp
qed

text \<open>
  Claim C9 at the failing input: the table holds 48 sessions and the oldest was stored under
  the empty task id. Storing a session under a fresh id leaves 49 entries, because the loop
  takes the empty key for a missing one and stops without evicting.
\<close>

theorem storeTaskSession_empty_key_overflow:
  "length (storeTaskSession ''fresh'' (sessionNamed ''fresh'') fullTable) = 49
   \<and> length fullTable = 48 \<and> distinct (map fst fullTable)"
  by code_simp


subsection \<open>Focus navigation\<close>

lemma indexOf_notin: "x \<notin> set xs \<Longrightarrow> indexOf xs x = - 1"
  by (induction xs) (auto simp: Let_def)

lemma indexOf_range: "indexOf xs x = - 1 \<or> (0 \<le> indexOf xs x \<and> indexOf xs x < int (length xs))"
  by (induction xs) (auto simp: Let_def)

lemma indexOf_nth: "distinct xs \<Longrightarrow> k < length xs \<Longrightarrow> indexOf xs (xs ! k) = int k"
proof (induction xs arbitrary: k)
  case Nil
  then show ?case by simp
next
  case (Cons y ys)
  show ?case
  proof (cases k)
    case 0
    then show ?thesis by simp
  next
    case (Suc j)
    with Cons.prems have j: "j < length ys" "distinct ys" "ys ! j \<noteq> y"
      by (auto simp: nth_mem)
    with Cons.IH[of j] Suc show ?thesis by (auto simp: Let_def)
  qed
qed

lemma activeTaskOrder_focus [simp]: "activeTaskOrder (s\<lparr>focus := f\<rparr>) = activeTaskOrder s"
  by (simp add: activeTaskOrder_def)

lemma focusNextTask_order [simp]: "activeTaskOrder (focusNextTask s) = activeTaskOrder s"
  by (auto simp: focusNextTask_def Let_def split: Focus.splits)

lemma funpow_order [simp]: "activeTaskOrder ((focusNextTask ^^ k) s) = activeTaskOrder s"
  by (induction k) auto

lemma focusNextTask_visits:
  assumes "distinct (activeTaskOrder s)" "focus s = Main" "k < length (activeTaskOrder s)"
  shows "(focusNextTask ^^ Suc k) s = s\<lparr>focus := Task (activeTaskOrder s ! k)\<rparr>"
  using assms(3)
proof (induction k)
  case 0
  then show ?case using assms(2) by (simp add: focusNextTask_def Let_def)
next
  case (Suc k)
  let ?o = "activeTaskOrder s"
  from Suc have IH: "(focusNextTask ^^ Suc k) s = s\<lparr>focus := Task (?o ! k)\<rparr>" by simp
  have idx: "indexOf ?o (?o ! k) = int k"
    using indexOf_nth[OF assms(1), of k] Suc.prems by simp
  have "(focusNextTask ^^ Suc (Suc k)) s = focusNextTask (s\<lparr>focus := Task (?o ! k)\<rparr>)"
    using IH by simp
  also have "\<dots> = s\<lparr>focus := Task (?o ! Suc k)\<rparr>"
  proof -
    have "?o \<noteq> []" using Suc.prems by auto
    then show ?thesis
      using Suc.prems idx by (simp add: focusNextTask_def Let_def nat_add_distrib)
  qed
  finally show ?case .
qed

lemma focusNextTask_cycle:
  assumes "distinct (activeTaskOrder s)" "focus s = Main" "activeTaskOrder s \<noteq> []"
  shows "(focusNextTask ^^ Suc (length (activeTaskOrder s))) s = s"
proof -
  let ?o = "activeTaskOrder s"
  let ?n = "length ?o"
  from assms(3) obtain m where m: "?n = Suc m" by (cases ?o) auto
  have "(focusNextTask ^^ Suc m) s = s\<lparr>focus := Task (?o ! m)\<rparr>"
    using focusNextTask_visits[OF assms(1,2), of m] m by simp
  moreover have "indexOf ?o (?o ! m) = int m"
    using indexOf_nth[OF assms(1), of m] m by simp
  ultimately have "(focusNextTask ^^ Suc (Suc m)) s = s\<lparr>focus := Main\<rparr>"
    using m assms(3) by (simp add: focusNextTask_def Let_def)
  then show ?thesis using m assms(2) by simp
qed

lemma focus_snap:
  assumes "activeTaskOrder s \<noteq> []" "focus s = Task t" "t \<notin> set (activeTaskOrder s)"
  shows "focusNextTask s = s\<lparr>focus := Task (last (activeTaskOrder s))\<rparr>"
    and "focusPrevTask s = s\<lparr>focus := Task (last (activeTaskOrder s))\<rparr>"
  using assms indexOf_notin[of t "activeTaskOrder s"]
  by (auto simp: focusNextTask_def focusPrevTask_def Let_def last_conv_nth)


text \<open>
  Claim C7, as amended. In every state whose active task ordering is not empty, the active
  ordering is the live ordering whenever there are live tasks and the finalized ordering
  otherwise. When its ids are distinct and the focus is on main, \<open>focusNextTask\<close> visits
  the ids of the active ordering in order, one per step, and the step after the last task,
  step number \<open>taskCount + 1\<close>, returns to main. When the focus is on a task id that is not
  in the active ordering, one step of \<open>focusNextTask\<close> or of \<open>focusPrevTask\<close> moves it to
  the last id of the active ordering.
\<close>

theorem focus_cycle:
  assumes "activeTaskOrder s \<noteq> []"
  shows "(liveTaskObservationOrder s \<noteq> [] \<longrightarrow> activeTaskOrder s = liveTaskObservationOrder s)
       \<and> (liveTaskObservationOrder s = [] \<longrightarrow> activeTaskOrder s = taskObservationOrder s)
       \<and> (focus s = Main \<and> distinct (activeTaskOrder s) \<longrightarrow>
            (\<forall>k < length (activeTaskOrder s).
               (focusNextTask ^^ Suc k) s = s\<lparr>focus := Task (activeTaskOrder s ! k)\<rparr>)
            \<and> (focusNextTask ^^ Suc (length (activeTaskOrder s))) s = s)
       \<and> (\<forall>t. focus s = Task t \<and> t \<notin> set (activeTaskOrder s) \<longrightarrow>
            focusNextTask s = s\<lparr>focus := Task (last (activeTaskOrder s))\<rparr>
            \<and> focusPrevTask s = s\<lparr>focus := Task (last (activeTaskOrder s))\<rparr>)"
proof (intro conjI impI allI)
  show "activeTaskOrder s = liveTaskObservationOrder s" if "liveTaskObservationOrder s \<noteq> []"
    using that by (simp add: activeTaskOrder_def)
  show "activeTaskOrder s = taskObservationOrder s" if "liveTaskObservationOrder s = []"
    using that by (simp add: activeTaskOrder_def)
  show "(focusNextTask ^^ Suc k) s = s\<lparr>focus := Task (activeTaskOrder s ! k)\<rparr>"
    if "focus s = Main \<and> distinct (activeTaskOrder s)" "k < length (activeTaskOrder s)" for k
    using that focusNextTask_visits by blast
  show "(focusNextTask ^^ Suc (length (activeTaskOrder s))) s = s"
    if "focus s = Main \<and> distinct (activeTaskOrder s)"
    using that assms focusNextTask_cycle by blast
  show "focusNextTask s = s\<lparr>focus := Task (last (activeTaskOrder s))\<rparr>"
    if "focus s = Task t \<and> t \<notin> set (activeTaskOrder s)" for t
    using that assms focus_snap(1) by blast
  show "focusPrevTask s = s\<lparr>focus := Task (last (activeTaskOrder s))\<rparr>"
    if "focus s = Task t \<and> t \<notin> set (activeTaskOrder s)" for t
    using that assms focus_snap(2) by blast
qed

theorem focus_cycle_witness:
  "(focusNextTask ^^ 3)
     \<lparr>focus = Main, taskObservationOrder = [''task_final_1'', ''task_final_2''],
      liveTaskObservationOrder = [''task_live_1'', ''task_live_2'']\<rparr>
   = \<lparr>focus = Main, taskObservationOrder = [''task_final_1'', ''task_final_2''],
      liveTaskObservationOrder = [''task_live_1'', ''task_live_2'']\<rparr>
   \<and> focus (focusNextTask
        \<lparr>focus = Main, taskObservationOrder = [''task_final_1'', ''task_final_2''],
         liveTaskObservationOrder = [''task_live_1'', ''task_live_2'']\<rparr>)
     = Task ''task_live_1''"
proof -
  let ?s = "\<lparr>focus = Main, taskObservationOrder = [''task_final_1'', ''task_final_2''],
      liveTaskObservationOrder = [''task_live_1'', ''task_live_2'']\<rparr>"
  have o: "activeTaskOrder ?s = [''task_live_1'', ''task_live_2'']"
    by (simp add: activeTaskOrder_def)
  have ne: "activeTaskOrder ?s \<noteq> []" unfolding o by simp
  have d: "focus ?s = Main \<and> distinct (activeTaskOrder ?s)" unfolding o by simp
  from focus_cycle[OF ne] d
  have "(\<forall>k < length (activeTaskOrder ?s).
               (focusNextTask ^^ Suc k) ?s = ?s\<lparr>focus := Task (activeTaskOrder ?s ! k)\<rparr>)
        \<and> (focusNextTask ^^ Suc (length (activeTaskOrder ?s))) ?s = ?s"
    by blast
  then have "(focusNextTask ^^ Suc 0) ?s = ?s\<lparr>focus := Task ''task_live_1''\<rparr>"
    and "(focusNextTask ^^ Suc (Suc (Suc 0))) ?s = ?s"
    unfolding o by auto
  then show ?thesis by (simp add: numeral_3_eq_3)
qed

text \<open>
  Claim C7 as stated fails. With two tasks, two steps from main end on the second task, not
  on main (the third step returns to main). And when an id occurs twice in the ordering the
  walk never leaves it: \<open>indexOf\<close> finds the first occurrence every time.
\<close>

theorem focus_cycle_counterexample:
  "focus ((focusNextTask ^^ 2)
      \<lparr>focus = Main, taskObservationOrder = [''task_1'', ''task_2''],
       liveTaskObservationOrder = []\<rparr>) = Task ''task_2''
   \<and> length (activeTaskOrder
      \<lparr>focus = Main, taskObservationOrder = [''task_1'', ''task_2''],
       liveTaskObservationOrder = []\<rparr>) = 2
   \<and> focus ((focusNextTask ^^ 3)
      \<lparr>focus = Main, taskObservationOrder = [''task_1'', ''task_1''],
       liveTaskObservationOrder = []\<rparr>) = Task ''task_1''"
  by (simp add: numeral_2_eq_2 numeral_3_eq_3 focusNextTask_def activeTaskOrder_def Let_def)

subsection \<open>Validation of a delegation call\<close>

lemma hasDuplicateTaskId_Cons:
  "hasDuplicateTaskId (x # xs) \<longleftrightarrow>
     (\<exists>t. inv_task_id x = Some t \<and> Some t \<in> inv_task_id ` set xs) \<or> hasDuplicateTaskId xs"
proof
  assume "hasDuplicateTaskId (x # xs)"
  then obtain i j where ij: "i < j" "j < length (x # xs)"
      "inv_task_id ((x # xs) ! i) \<noteq> None"
      "inv_task_id ((x # xs) ! i) = inv_task_id ((x # xs) ! j)"
    unfolding hasDuplicateTaskId_def by blast
  from ij(1) obtain j' where j': "j = Suc j'" by (cases j) auto
  show "(\<exists>t. inv_task_id x = Some t \<and> Some t \<in> inv_task_id ` set xs) \<or> hasDuplicateTaskId xs"
  proof (cases i)
    case 0
    with ij j' obtain t where "inv_task_id x = Some t" "inv_task_id (xs ! j') = Some t" "j' < length xs"
      by auto
    then have "Some t \<in> inv_task_id ` set xs" by (metis imageI nth_mem)
    with \<open>inv_task_id x = Some t\<close> show ?thesis by blast
  next
    case (Suc i')
    with ij j' have "i' < j'" "j' < length xs" "inv_task_id (xs ! i') \<noteq> None"
      "inv_task_id (xs ! i') = inv_task_id (xs ! j')" by auto
    then have "hasDuplicateTaskId xs" unfolding hasDuplicateTaskId_def by blast
    then show ?thesis ..
  qed
next
  assume "(\<exists>t. inv_task_id x = Some t \<and> Some t \<in> inv_task_id ` set xs) \<or> hasDuplicateTaskId xs"
  then show "hasDuplicateTaskId (x # xs)"
  proof
    assume "\<exists>t. inv_task_id x = Some t \<and> Some t \<in> inv_task_id ` set xs"
    then obtain t y where t: "inv_task_id x = Some t" "y \<in> set xs" "inv_task_id y = Some t"
      by (metis imageE)
    then obtain j' where "j' < length xs" "xs ! j' = y" by (meson in_set_conv_nth)
    with t have "0 < Suc j' \<and> Suc j' < length (x # xs)
        \<and> inv_task_id ((x # xs) ! 0) \<noteq> None
        \<and> inv_task_id ((x # xs) ! 0) = inv_task_id ((x # xs) ! Suc j')" by simp
    then show ?thesis unfolding hasDuplicateTaskId_def by blast
  next
    assume "hasDuplicateTaskId xs"
    then obtain i j where "i < j" "j < length xs" "inv_task_id (xs ! i) \<noteq> None"
      "inv_task_id (xs ! i) = inv_task_id (xs ! j)"
      unfolding hasDuplicateTaskId_def by blast
    then have "Suc i < Suc j \<and> Suc j < length (x # xs)
        \<and> inv_task_id ((x # xs) ! Suc i) \<noteq> None
        \<and> inv_task_id ((x # xs) ! Suc i) = inv_task_id ((x # xs) ! Suc j)" by simp
    then show ?thesis unfolding hasDuplicateTaskId_def by blast
  qed
qed

lemma hasDuplicateTaskId_Nil [simp]: "\<not> hasDuplicateTaskId []"
  by (simp add: hasDuplicateTaskId_def)

lemma collectDuplicates_prefix: "prefix duplicates (collectDuplicates invs seen duplicates)"
proof (induction invs arbitrary: seen duplicates)
  case Nil
  show ?case by simp
next
  case (Cons x xs)
  show ?case
  proof (cases "inv_task_id x")
    case None
    then show ?thesis using Cons.IH by simp
  next
    case (Some t)
    have "prefix duplicates (collectDuplicates xs seen (duplicates @ [t]))"
      using Cons.IH[of "duplicates @ [t]" seen] by (metis append_prefixD)
    then show ?thesis
      using Some Cons.IH[of duplicates "seen @ [t]"] by simp
  qed
qed

lemma collectDuplicates_same:
  "collectDuplicates invs seen duplicates = duplicates \<longleftrightarrow>
     \<not> hasDuplicateTaskId invs \<and> (\<forall>t \<in> set seen. Some t \<notin> inv_task_id ` set invs)"
proof (induction invs arbitrary: seen duplicates)
  case Nil
  show ?case by simp
next
  case (Cons x xs)
  show ?case
  proof (cases "inv_task_id x")
    case None
    then show ?thesis
      using Cons.IH[of seen duplicates] by (auto simp: hasDuplicateTaskId_Cons)
  next
    case (Some t)
    show ?thesis
    proof (cases "t \<in> set seen")
      case True
      have "prefix (duplicates @ [t]) (collectDuplicates xs seen (duplicates @ [t]))"
        by (rule collectDuplicates_prefix)
      then have "length (duplicates @ [t]) \<le> length (collectDuplicates xs seen (duplicates @ [t]))"
        by (rule prefix_length_le)
      then have "collectDuplicates xs seen (duplicates @ [t]) \<noteq> duplicates"
        by auto
      then show ?thesis using Some True by auto
    next
      case False
      then show ?thesis
        using Some Cons.IH[of "seen @ [t]" duplicates]
        by (auto simp: hasDuplicateTaskId_Cons)
    qed
  qed
qed

lemma validateTaskIdUniqueness_iff:
  "isDuplicateError (validateTaskIdUniqueness invs) \<longleftrightarrow> hasDuplicateTaskId invs"
  "validateTaskIdUniqueness invs = Inr () \<longleftrightarrow> \<not> hasDuplicateTaskId invs"
proof -
  have e: "collectDuplicates invs [] [] = [] \<longleftrightarrow> \<not> hasDuplicateTaskId invs"
    using collectDuplicates_same[of invs "[]" "[]"] by simp
  show "isDuplicateError (validateTaskIdUniqueness invs) \<longleftrightarrow> hasDuplicateTaskId invs"
    using e by (auto simp: validateTaskIdUniqueness_def isDuplicateError_def Let_def)
  show "validateTaskIdUniqueness invs = Inr () \<longleftrightarrow> \<not> hasDuplicateTaskId invs"
    using e by (auto simp: validateTaskIdUniqueness_def Let_def)
qed

lemma find_known: "find (\<lambda>agent. agent_name agent = n) cands = None \<longleftrightarrow> n \<notin> agent_name ` set cands"
  by (auto simp: find_None_iff)

lemma find_known_Some:
  "find (\<lambda>agent. agent_name agent = n) cands = Some a \<Longrightarrow> n \<in> agent_name ` set cands"
  using find_known[of n cands] by auto

lemma checkSubagents_ok: "checkSubagents cands tasks = Inr () \<longleftrightarrow> allKnown cands tasks"
  by (induction tasks) (auto simp: allKnown_def find_known split: option.splits dest: find_known_Some)

lemma checkSubagents_not_dup: "\<not> isDuplicateError (checkSubagents cands tasks)"
  by (induction tasks) (auto simp: isDuplicateError_def split: option.splits)

lemma hasDuplicateTaskId_single [simp]: "\<not> hasDuplicateTaskId [x]"
  by (simp add: hasDuplicateTaskId_Cons)


lemma hasDuplicateTaskId_inputs:
  "hasDuplicateTaskId (invocationInputs args) \<longleftrightarrow> hasDuplicateTaskId (batch args)"
  by (cases "parallel_tasks args") (auto simp: invocationInputs_def batch_def)

lemma validate_cases:
  "validate candidates args =
     (if arg_subagent_type args \<notin> agent_name ` set candidates
      then Inl (ToolError (''Unknown subagent: '' @ arg_subagent_type args))
      else if hasDuplicateTaskId (batch args)
      then validateTaskIdUniqueness (invocationInputs args)
      else checkSubagents candidates (batch args))"
proof (cases "find (\<lambda>agent. agent_name agent = arg_subagent_type args) candidates")
  case None
  then have "arg_subagent_type args \<notin> agent_name ` set candidates"
    by (simp add: find_known)
  with None show ?thesis by (simp add: validate_def)
next
  case (Some a)
  then have k: "arg_subagent_type args \<in> agent_name ` set candidates"
    by (rule find_known_Some)
  show ?thesis
  proof (cases "hasDuplicateTaskId (batch args)")
    case True
    then have "isDuplicateError (validateTaskIdUniqueness (invocationInputs args))"
      by (simp add: validateTaskIdUniqueness_iff hasDuplicateTaskId_inputs)
    then show ?thesis using Some k True
      by (auto simp: validate_def isDuplicateError_def)
  next
    case False
    then have "validateTaskIdUniqueness (invocationInputs args) = Inr ()"
      by (simp add: validateTaskIdUniqueness_iff hasDuplicateTaskId_inputs)
    then show ?thesis using Some k False by (simp add: validate_def batch_def)
  qed
qed

lemma planned_nth:
  assumes "i < length (invocationInputs args)"
  shows "planned liveRunId args ! i =
     (invocationInputs args ! i,
      case inv_task_id (invocationInputs args ! i) of
        Some t \<Rightarrow> t | None \<Rightarrow> makeLiveTaskID liveRunId i)"
  using assms by (simp add: planned_def nth_enumerate_eq)

text \<open>
  Claim C4. The uniqueness check raises its duplicate error exactly for the batches in which
  two entries carry the same explicit task id, so entries without a task id never count. In
  \<open>validate\<close>, which runs before \<open>run\<close>, every such batch is rejected, the duplicate
  error is raised exactly for such batches once the top-level subagent is known, and a call
  is accepted exactly when its subagents are known and no two entries of \<open>parallel_tasks\<close>
  share an explicit id, whatever the top-level task id is. An entry without a task id gets
  the id \<open>task_<toolCallId>_<index>\<close>.
\<close>

theorem validate_rejects_duplicate_task_ids:
  "(isDuplicateError (validateTaskIdUniqueness invocations) \<longleftrightarrow> hasDuplicateTaskId invocations)
   \<and> (hasDuplicateTaskId (batch args) \<longrightarrow> isl (validate candidates args))
   \<and> (isDuplicateError (validate candidates args) \<longleftrightarrow>
        arg_subagent_type args \<in> agent_name ` set candidates \<and> hasDuplicateTaskId (batch args))
   \<and> (validate candidates args = Inr () \<longleftrightarrow>
        arg_subagent_type args \<in> agent_name ` set candidates
        \<and> \<not> hasDuplicateTaskId (batch args) \<and> allKnown candidates (batch args))
   \<and> (\<forall>i < length (invocationInputs args).
        inv_task_id (invocationInputs args ! i) = None \<longrightarrow>
        snd (planned liveRunId args ! i) = ''task_'' @ liveRunId @ ''_'' @ show_nat i)"
proof (intro conjI allI impI)
  show "isDuplicateError (validateTaskIdUniqueness invocations) \<longleftrightarrow> hasDuplicateTaskId invocations"
    by (rule validateTaskIdUniqueness_iff)
  show "isl (validate candidates args)" if "hasDuplicateTaskId (batch args)"
  proof -
    from that have "isDuplicateError (validateTaskIdUniqueness (invocationInputs args))"
      by (simp add: validateTaskIdUniqueness_iff hasDuplicateTaskId_inputs)
    then show ?thesis using that
      by (auto simp: validate_cases isDuplicateError_def)
  qed
  show "isDuplicateError (validate candidates args) \<longleftrightarrow>
        arg_subagent_type args \<in> agent_name ` set candidates \<and> hasDuplicateTaskId (batch args)"
    using validateTaskIdUniqueness_iff(1)[of "invocationInputs args"]
      checkSubagents_not_dup[of candidates "batch args"]
    by (auto simp: validate_cases hasDuplicateTaskId_inputs isDuplicateError_def)
  show "validate candidates args = Inr () \<longleftrightarrow>
        arg_subagent_type args \<in> agent_name ` set candidates
        \<and> \<not> hasDuplicateTaskId (batch args) \<and> allKnown candidates (batch args)"
    using validateTaskIdUniqueness_iff(2)[of "invocationInputs args"]
    by (auto simp: validate_cases hasDuplicateTaskId_inputs checkSubagents_ok)
  show "snd (planned liveRunId args ! i) = ''task_'' @ liveRunId @ ''_'' @ show_nat i"
    if "i < length (invocationInputs args)" "inv_task_id (invocationInputs args ! i) = None" for i
    using that by (simp add: planned_nth makeLiveTaskID_def)
qed

text \<open>
  The theorem on two calls of the repository's tests: a top-level task id equal to the nested
  one is accepted, two nested entries with the same id are rejected.
\<close>

theorem validate_rejects_duplicate_task_ids_witness:
  "validate [general, explore]
     \<lparr>arg_description = ''delegate'', arg_prompt = ''do work'', arg_subagent_type = ''general'',
      arg_task_id = Some ''duplicate-id'',
      parallel_tasks = Some
        [\<lparr>inv_description = ''first'', inv_prompt = ''scan first'',
          inv_subagent_type = ''explore'', inv_task_id = Some ''duplicate-id''\<rparr>]\<rparr>
   = Inr ()
   \<and> isl (validate [general, explore]
     \<lparr>arg_description = ''delegate'', arg_prompt = ''do work'', arg_subagent_type = ''general'',
      arg_task_id = None,
      parallel_tasks = Some
        [\<lparr>inv_description = ''first'', inv_prompt = ''scan first'',
          inv_subagent_type = ''explore'', inv_task_id = Some ''same-id''\<rparr>,
         \<lparr>inv_description = ''second'', inv_prompt = ''scan second'',
          inv_subagent_type = ''general'', inv_task_id = Some ''same-id''\<rparr>]\<rparr>)"
proof -
  let ?ok = "\<lparr>arg_description = ''delegate'', arg_prompt = ''do work'', arg_subagent_type = ''general'',
      arg_task_id = Some ''duplicate-id'',
      parallel_tasks = Some
        [\<lparr>inv_description = ''first'', inv_prompt = ''scan first'',
          inv_subagent_type = ''explore'', inv_task_id = Some ''duplicate-id''\<rparr>]\<rparr>"
  let ?bad = "\<lparr>arg_description = ''delegate'', arg_prompt = ''do work'', arg_subagent_type = ''general'',
      arg_task_id = None,
      parallel_tasks = Some
        [\<lparr>inv_description = ''first'', inv_prompt = ''scan first'',
          inv_subagent_type = ''explore'', inv_task_id = Some ''same-id''\<rparr>,
         \<lparr>inv_description = ''second'', inv_prompt = ''scan second'',
          inv_subagent_type = ''general'', inv_task_id = Some ''same-id''\<rparr>]\<rparr>"
  have a: "arg_subagent_type ?ok \<in> agent_name ` set [general, explore]
        \<and> \<not> hasDuplicateTaskId (batch ?ok) \<and> allKnown [general, explore] (batch ?ok)"
    by (simp add: batch_def allKnown_def general_def explore_def)
  have b: "hasDuplicateTaskId (batch ?bad)"
    by (simp add: batch_def hasDuplicateTaskId_Cons)
  from validate_rejects_duplicate_task_ids[of _ ?ok "[general, explore]"] a
  have "validate [general, explore] ?ok = Inr ()" by blast
  moreover from validate_rejects_duplicate_task_ids[of _ ?bad "[general, explore]"] b
  have "isl (validate [general, explore] ?bad)" by blast
  ultimately show ?thesis by simp
qed

subsection \<open>Session resumption\<close>

lemma map_get_append_last:
  "k \<notin> fst ` set pre \<Longrightarrow> map_get k (pre @ [(k, v)]) = Some v"
  by (induction pre) (auto simp: map_get_def)

lemma evictSessions_keeps_newest:
  "k \<notin> fst ` set pre \<Longrightarrow> \<exists>pre'. evictSessions (pre @ [(k, v)]) = pre' @ [(k, v)] \<and> k \<notin> fst ` set pre'"
proof (induction "length pre" arbitrary: pre rule: less_induct)
  case less
  show ?case
  proof (cases "length (pre @ [(k, v)]) > MAX_TASK_SESSIONS")
    case False
    then have "evictSessions (pre @ [(k, v)]) = pre @ [(k, v)]"
      by (subst evictSessions.simps) simp
    with less.prems show ?thesis by blast
  next
    case True
    then obtain e rest where pre: "pre = e # rest"
      by (cases pre) (auto simp: MAX_TASK_SESSIONS_def)
    obtain oldest s where e: "e = (oldest, s)" by (cases e)
    show ?thesis
    proof (cases "oldest = []")
      case True
      then have "evictSessions (pre @ [(k, v)]) = pre @ [(k, v)]"
        using pre e by (subst evictSessions.simps) simp
      with less.prems show ?thesis by blast
    next
      case False
      from less.prems pre e have ne: "oldest \<noteq> k" by auto
      have del: "map_delete oldest (pre @ [(k, v)]) = map_delete oldest pre @ [(k, v)]"
        using ne by (simp add: map_delete_def)
      have len: "length (map_delete oldest pre) < length pre"
        using pre e by (simp add: map_delete_def less_Suc_eq_le)
      have notin: "k \<notin> fst ` set (map_delete oldest pre)"
        using less.prems by (auto simp: map_delete_def)
      have "evictSessions (pre @ [(k, v)]) = evictSessions (map_delete oldest pre @ [(k, v)])"
        using True False pre e del by (subst evictSessions.simps) simp
      with less.hyps[OF len notin] show ?thesis by simp
    qed
  qed
qed

lemma storeTaskSession_get:
  "map_get k (storeTaskSession k v tbl) = Some v"
proof -
  let ?pre = "map_delete k tbl"
  have t1: "(if map_has k tbl then map_delete k tbl else tbl) = ?pre"
  proof (cases "map_has k tbl")
    case False
    then have "filter (\<lambda>e. fst e \<noteq> k) tbl = tbl"
      by (intro filter_True) (auto simp: map_has_def)
    then show ?thesis using False by (simp add: map_delete_def)
  qed simp
  have ni: "k \<notin> fst ` set ?pre" by (auto simp: map_delete_def)
  then have nh: "\<not> map_has k ?pre" by (simp add: map_has_def)
  have "storeTaskSession k v tbl = evictSessions (?pre @ [(k, v)])"
    unfolding storeTaskSession_def Let_def t1 using nh by (simp add: map_set_def)
  with evictSessions_keeps_newest[OF ni, of v] map_get_append_last show ?thesis
    by metis
qed

text \<open>
  Claim C3, as amended. Take an invocation whose task id (its own, or the planned one when
  it has none) names a session of the table, and whose subagent is one of the candidates.
  If the subagent is the one the session is pinned to, the trimmed prompt, with the
  awareness preamble in front when there are peers, is appended to the session's history as
  a user entry, unless it is empty, in which case the history stays as it is; the session
  is stored under its id, and the subagent runs on it. If the subagent is another one, a
  \<open>ToolError\<close> is raised whose message contains the task id and the pinned subagent name,
  and the state is unchanged.
\<close>

theorem resume_session:
  assumes "map_get task (taskSessions world) = Some session"
    and "task = (case inv_task_id invocation of Some t \<Rightarrow> t | None \<Rightarrow> plannedTaskId)"
    and "find (\<lambda>agent. agent_name agent = inv_subagent_type invocation) candidates = Some subagent"
  shows "(session_subagentName session = inv_subagent_type invocation \<longrightarrow>
           (\<exists>world'.
              prepareTaskSession invocation plannedTaskId candidates peer world
                = (Inr (subagent, task,
                        session\<lparr>session_history :=
                          session_history session @ promptItems invocation peer (nextSequenceId world)\<rparr>),
                   world')
              \<and> map_get task (taskSessions world')
                  = Some (session\<lparr>session_history :=
                          session_history session @ promptItems invocation peer (nextSequenceId world)\<rparr>)
              \<and> fst (executeTaskInvocation env invocation plannedTaskId candidates peer world)
                  = resumedOutcome env invocation subagent task
                      (session\<lparr>session_history :=
                          session_history session @ promptItems invocation peer (nextSequenceId world)\<rparr>)))
       \<and> (session_subagentName session \<noteq> inv_subagent_type invocation \<longrightarrow>
           (\<exists>message.
              prepareTaskSession invocation plannedTaskId candidates peer world
                = (Inl (ToolError message), world)
              \<and> executeTaskInvocation env invocation plannedTaskId candidates peer world
                = (Inl (ToolError message), world)
              \<and> sublist task message \<and> sublist (session_subagentName session) message))"
proof (intro conjI impI)
  assume same: "session_subagentName session = inv_subagent_type invocation"
  let ?s1 = "session\<lparr>session_history :=
               session_history session @ promptItems invocation peer (nextSequenceId world)\<rparr>"
  let ?text = "trim ((case peer of Some p \<Rightarrow> buildParallelAwarenessPrefix invocation p | None \<Rightarrow> [])
                       @ inv_prompt invocation)"
  have ex: "fst (executeTaskInvocation env invocation plannedTaskId candidates peer world)
              = resumedOutcome env invocation subagent task ?s1"
    if "prepareTaskSession invocation plannedTaskId candidates peer world
          = (Inr (subagent, task, ?s1), w)" for w
    using that
    by (simp add: executeTaskInvocation_def resumedOutcome_def Let_def
        split: prod.splits sum.splits)
  show "\<exists>world'. prepareTaskSession invocation plannedTaskId candidates peer world
                = (Inr (subagent, task, ?s1), world')
              \<and> map_get task (taskSessions world') = Some ?s1
              \<and> fst (executeTaskInvocation env invocation plannedTaskId candidates peer world)
                  = resumedOutcome env invocation subagent task ?s1"
  proof (cases "?text = []")
    case True
    then have "prepareTaskSession invocation plannedTaskId candidates peer world
        = (Inr (subagent, task, ?s1),
           world\<lparr>taskSessions := storeTaskSession task ?s1 (taskSessions world)\<rparr>)"
      using assms same
      by (simp add: prepareTaskSession_def Let_def makeSessionKey_def promptItems_def)
    then show ?thesis using ex by (simp add: storeTaskSession_get)
  next
    case False
    then have "prepareTaskSession invocation plannedTaskId candidates peer world
        = (Inr (subagent, task, ?s1),
           world\<lparr>nextSequenceId := nextSequenceId world + 1,
                 taskSessions := storeTaskSession task ?s1 (taskSessions world)\<rparr>)"
      using assms same
      by (simp add: prepareTaskSession_def Let_def makeSessionKey_def promptItems_def)
    then show ?thesis using ex by (simp add: storeTaskSession_get)
  qed
next
  assume diff: "session_subagentName session \<noteq> inv_subagent_type invocation"
  let ?m = "''Task '' @ task @ '' belongs to subagent '' @ session_subagentName session
                    @ ''. Resume it with that same subagent.''"
  have p: "prepareTaskSession invocation plannedTaskId candidates peer world
            = (Inl (ToolError ?m), world)"
    using assms diff by (simp add: prepareTaskSession_def Let_def makeSessionKey_def)
  have s1: "sublist task ?m"
    using sublist_appendI[of task "''Task ''"] by simp
  have s2: "sublist (session_subagentName session) ?m"
    using sublist_appendI[of "session_subagentName session" "''Task '' @ task @ '' belongs to subagent ''"]
    by simp
  show "\<exists>message.
              prepareTaskSession invocation plannedTaskId candidates peer world
                = (Inl (ToolError message), world)
              \<and> executeTaskInvocation env invocation plannedTaskId candidates peer world
                = (Inl (ToolError message), world)
              \<and> sublist task message \<and> sublist (session_subagentName session) message"
    using p s1 s2 by (intro exI[of _ ?m]) (simp add: executeTaskInvocation_def)
qed

text \<open>The theorem on a table with one session, resumed by its own subagent and by another.\<close>

theorem resume_session_witness:
  "fst (prepareTaskSession (resumeWith ''general'' ''continue'') ''task_x_0''
          [general, explore] None oneSessionWorld)
     = Inr (general, ''t1'',
            firstSession\<lparr>session_history := [UserItem 0 ''first prompt'', UserItem 1 ''continue'']\<rparr>)
   \<and> prepareTaskSession (resumeWith ''explore'' ''continue'') ''task_x_0''
          [general, explore] None oneSessionWorld
     = (Inl (ToolError ''Task t1 belongs to subagent general. Resume it with that same subagent.''),
        oneSessionWorld)"
proof -
  have g: "map_get ''t1'' (taskSessions oneSessionWorld) = Some firstSession"
    by (simp add: oneSessionWorld_def map_get_def)
  have t: "''t1'' = (case inv_task_id (resumeWith a b) of Some t \<Rightarrow> t | None \<Rightarrow> ''task_x_0'')" for a b
    by (simp add: resumeWith_def)
  have f1: "find (\<lambda>agent. agent_name agent = inv_subagent_type (resumeWith ''general'' ''continue''))
             [general, explore] = Some general"
    by (simp add: resumeWith_def general_def)
  have f2: "find (\<lambda>agent. agent_name agent = inv_subagent_type (resumeWith ''explore'' ''continue''))
             [general, explore] = Some explore"
    by (simp add: resumeWith_def general_def explore_def)
  have p: "promptItems (resumeWith ''general'' ''continue'') None (nextSequenceId oneSessionWorld)
             = [UserItem 1 ''continue'']"
    by (simp add: promptItems_def resumeWith_def trim_def is_space_def oneSessionWorld_def)
  have same: "session_subagentName firstSession
                = inv_subagent_type (resumeWith ''general'' ''continue'')"
    by (simp add: firstSession_def resumeWith_def)
  from resume_session[OF g t f1, of None idleEnv] same
  obtain w where "prepareTaskSession (resumeWith ''general'' ''continue'') ''task_x_0''
          [general, explore] None oneSessionWorld
     = (Inr (general, ''t1'',
             firstSession\<lparr>session_history := session_history firstSession
               @ promptItems (resumeWith ''general'' ''continue'') None
                   (nextSequenceId oneSessionWorld)\<rparr>), w)"
    by blast
  then have "fst (prepareTaskSession (resumeWith ''general'' ''continue'') ''task_x_0''
          [general, explore] None oneSessionWorld)
     = Inr (general, ''t1'',
            firstSession\<lparr>session_history := [UserItem 0 ''first prompt'', UserItem 1 ''continue'']\<rparr>)"
    unfolding p by (simp add: firstSession_def)
  moreover have "prepareTaskSession (resumeWith ''explore'' ''continue'') ''task_x_0''
          [general, explore] None oneSessionWorld
     = (Inl (ToolError ''Task t1 belongs to subagent general. Resume it with that same subagent.''),
        oneSessionWorld)"
  proof -
    have diff: "session_subagentName firstSession
                  \<noteq> inv_subagent_type (resumeWith ''explore'' ''continue'')"
      by (simp add: firstSession_def resumeWith_def)
    from resume_session[OF g t f2, of None idleEnv] diff
    obtain message where m: "prepareTaskSession (resumeWith ''explore'' ''continue'') ''task_x_0''
          [general, explore] None oneSessionWorld = (Inl (ToolError message), oneSessionWorld)"
      by blast
    moreover have "fst (prepareTaskSession (resumeWith ''explore'' ''continue'') ''task_x_0''
          [general, explore] None oneSessionWorld)
        = Inl (ToolError ''Task t1 belongs to subagent general. Resume it with that same subagent.'')"
      using g f2 by (simp add: prepareTaskSession_def Let_def makeSessionKey_def firstSession_def
        resumeWith_def)
    ultimately show ?thesis by simp
  qed
  ultimately show ?thesis by simp
qed

text \<open>
  Claim C3 as stated fails. A resuming call whose prompt is blank appends nothing: the
  session goes on with the history it had. And a call that names a subagent that is not a
  candidate gets the unknown-subagent error, which quotes neither the task id nor the pinned
  subagent.
\<close>

theorem resume_blank_prompt_counterexample:
  "prepareTaskSession (resumeWith ''general'' ''   '') ''task_x_0''
          [general, explore] None oneSessionWorld
     = (Inr (general, ''t1'', firstSession), oneSessionWorld)
   \<and> session_history firstSession = [UserItem 0 ''first prompt'']
   \<and> prepareTaskSession (resumeWith ''ghost'' ''continue'') ''task_x_0''
          [general, explore] None oneSessionWorld
     = (Inl (ToolError ''Unknown subagent: ghost''), oneSessionWorld)"
  by (simp add: prepareTaskSession_def Let_def makeSessionKey_def oneSessionWorld_def
      firstSession_def resumeWith_def general_def explore_def map_get_def
      trim_def is_space_def storeTaskSession_def map_has_def map_delete_def map_set_def
      evictSessions.simps MAX_TASK_SESSIONS_def)

subsection \<open>Parallel delegation\<close>

text \<open>
  The store and the session table. On a well-formed store, starting an invocation is the
  first part of \<open>executeTaskInvocation\<close> on the table read back, and the store it leaves
  is well formed.
\<close>

lemma storedWorld_readTable:
  "taskSessions (storedWorld store) = readTable (store_objects store) (store_table store)"
  by (simp add: storedWorld_def readTable_def)

lemma map_get_readTable:
  "map_get k (readTable objects tbl) = map_option (\<lambda>address. objects ! address) (map_get k tbl)"
  by (simp add: map_get_def readTable_def map_of_map)

lemma map_has_values: "map_has k (map (\<lambda>(key, v). (key, f v)) tbl) = map_has k tbl"
  by (force simp: map_has_def)

lemma map_delete_values:
  "map_delete k (map (\<lambda>(key, v). (key, f v)) tbl) = map (\<lambda>(key, v). (key, f v)) (map_delete k tbl)"
  by (induction tbl) (auto simp: map_delete_def)

lemma map_set_values:
  "map_set k (f v) (map (\<lambda>(key, w). (key, f w)) tbl) = map (\<lambda>(key, w). (key, f w)) (map_set k v tbl)"
  by (auto simp: map_set_def map_has_values)

lemma evictSessions_values:
  "evictSessions (map (\<lambda>(key, v). (key, f v)) tbl) = map (\<lambda>(key, v). (key, f v)) (evictSessions tbl)"
proof (induction tbl rule: evictSessions.induct)
  case (1 tbl)
  show ?case
  proof (cases "length tbl > MAX_TASK_SESSIONS")
    case False
    then show ?thesis by (simp add: evictSessions.simps)
  next
    case True
    show ?thesis
    proof (cases tbl)
      case Nil
      then show ?thesis by (simp add: evictSessions.simps)
    next
      case (Cons entry rest)
      obtain oldest v where e: "entry = (oldest, v)" by (cases entry)
      show ?thesis
      proof (cases "oldest = []")
        case True
        then show ?thesis using Cons e by (simp add: evictSessions.simps)
      next
        case False
        from 1[OF True Cons e[symmetric] False]
        have "evictSessions (map (\<lambda>(key, v). (key, f v)) (map_delete oldest tbl))
                = map (\<lambda>(key, v). (key, f v)) (evictSessions (map_delete oldest tbl))" .
        then show ?thesis
          using True Cons e False
          by (subst evictSessions.simps, subst (2) evictSessions.simps)
             (simp add: map_delete_values[symmetric])
      qed
    qed
  qed
qed

lemma storeTaskSession_values:
  "storeTaskSession k (f v) (map (\<lambda>(key, w). (key, f w)) tbl)
     = map (\<lambda>(key, w). (key, f w)) (storeTaskSession k v tbl)"
  by (simp add: storeTaskSession_def Let_def map_has_values map_delete_values map_set_values
      evictSessions_values)

lemma storeTaskSession_delete_first:
  "storeTaskSession k v tbl = evictSessions (map_set k v (map_delete k tbl))"
proof -
  have "map_delete k tbl = tbl" if "\<not> map_has k tbl"
    using that by (induction tbl) (auto simp: map_delete_def map_has_def)
  then show ?thesis by (auto simp: storeTaskSession_def Let_def)
qed

lemma readTable_cong:
  "(\<And>key address. (key, address) \<in> set tbl \<Longrightarrow> objects' ! address = objects ! address)
     \<Longrightarrow> readTable objects' tbl = readTable objects tbl"
  by (auto simp: readTable_def)

lemma storeTaskSession_readTable:
  assumes here: "objects' ! address = session"
    and others: "\<And>key a. (key, a) \<in> set tbl \<Longrightarrow> key \<noteq> k \<Longrightarrow> objects' ! a = objects ! a"
  shows "storeTaskSession k session (readTable objects tbl)
           = readTable objects' (storeTaskSession k address tbl)"
proof -
  have "readTable objects (map_delete k tbl) = readTable objects' (map_delete k tbl)"
    by (rule readTable_cong[symmetric]) (auto simp: map_delete_def others)
  then have "map_delete k (readTable objects tbl) = readTable objects' (map_delete k tbl)"
    by (simp add: readTable_def map_delete_values)
  then have "storeTaskSession k session (readTable objects tbl)
      = evictSessions (map_set k (objects' ! address) (readTable objects' (map_delete k tbl)))"
    by (simp add: storeTaskSession_delete_first here)
  also have "\<dots> = readTable objects' (evictSessions (map_set k address (map_delete k tbl)))"
    by (simp add: readTable_def map_set_values evictSessions_values)
  finally show ?thesis by (simp add: storeTaskSession_delete_first)
qed

lemma tableOk_address:
  assumes "tableOk store" and "map_get k (store_table store) = Some address"
  shows "address < length (store_objects store)"
    and "\<And>key a. (key, a) \<in> set (store_table store) \<Longrightarrow> key \<noteq> k \<Longrightarrow> a \<noteq> address"
proof -
  from assms(2) have m: "(k, address) \<in> set (store_table store)"
    by (auto simp: map_get_def dest: map_of_SomeD)
  with assms(1) show "address < length (store_objects store)"
    by (auto simp: tableOk_def)
  fix key a assume e: "(key, a) \<in> set (store_table store)" and n: "key \<noteq> k"
  from assms(1) have "inj_on snd (set (store_table store))"
    by (simp add: tableOk_def distinct_map)
  show "a \<noteq> address"
  proof
    assume "a = address"
    then have "snd (key, a) = snd (k, address)" by simp
    from inj_onD[OF \<open>inj_on snd (set (store_table store))\<close> this e m] n
    show False by simp
  qed
qed

lemma startTaskInvocation_refines:
  assumes ok: "tableOk store"
  shows "prepareTaskSession invocation plannedTaskId candidates peer (storedWorld store)
     = (case startTaskInvocation invocation plannedTaskId candidates peer store of
          (Inl e, store') \<Rightarrow> (Inl e, storedWorld store')
        | (Inr (subagent, task, address), store') \<Rightarrow>
            (Inr (subagent, task, store_objects store' ! address), storedWorld store'))"
proof (cases "find (\<lambda>agent. agent_name agent = inv_subagent_type invocation) candidates")
  case None
  then show ?thesis by (simp add: prepareTaskSession_def startTaskInvocation_def)
next
  case (Some subagent)
  define task where "task = (case inv_task_id invocation of Some t \<Rightarrow> t | None \<Rightarrow> plannedTaskId)"
  define name where "name = inv_subagent_type invocation"
  define objects where "objects = store_objects store"
  define tbl where "tbl = store_table store"
  define fresh where "fresh = \<lparr>session_id = task, session_subagentName = name, session_history = []\<rparr>"
  define address where "address = (case map_get task tbl of Some found \<Rightarrow> found | None \<Rightarrow> length objects)"
  define objects0 where "objects0 = (case map_get task tbl of Some found \<Rightarrow> objects | None \<Rightarrow> objects @ [fresh])"
  define session where "session = objects0 ! address"
  define prompt where "prompt = trim ((case peer of Some p \<Rightarrow> buildParallelAwarenessPrefix invocation p | None \<Rightarrow> [])
                       @ inv_prompt invocation)"
  define session1 where "session1 = (if length prompt > 0
      then session\<lparr>session_history := session_history session @ [UserItem (store_sequenceId store) prompt]\<rparr>
      else session)"
  define objects1 where "objects1 = (if length prompt > 0 then objects0[address := session1] else objects0)"
  have lookup: "(case map_get task (taskSessions (storedWorld store)) of
                  Some s \<Rightarrow> s | None \<Rightarrow> fresh) = session"
  proof (cases "map_get task tbl")
    case None
    then show ?thesis
      by (simp add: storedWorld_readTable map_get_readTable tbl_def[symmetric] session_def
          objects0_def address_def)
  next
    case (Some found)
    then show ?thesis
      by (simp add: storedWorld_readTable map_get_readTable tbl_def[symmetric] session_def
          objects0_def address_def objects_def)
  qed
  have in_range: "address < length objects0"
  proof (cases "map_get task tbl")
    case None
    then show ?thesis by (simp add: address_def objects0_def)
  next
    case (Some found)
    with tableOk_address(1)[OF ok, of task found] show ?thesis
      by (simp add: address_def objects0_def tbl_def objects_def)
  qed
  have here: "objects1 ! address = session1"
    using in_range by (simp add: objects1_def session1_def session_def)
  have others: "objects1 ! a = objects ! a" if "(key, a) \<in> set tbl" "key \<noteq> task" for key a
  proof -
    have a: "a < length objects" using ok that(1) by (auto simp: tableOk_def tbl_def objects_def)
    have "a \<noteq> address"
    proof (cases "map_get task tbl")
      case None
      with a show ?thesis by (simp add: address_def)
    next
      case (Some found)
      with tableOk_address(2)[OF ok, of task found key a] that show ?thesis
        by (simp add: address_def tbl_def)
    qed
    moreover have "objects0 ! a = objects ! a"
      using a by (simp add: objects0_def nth_append split: option.splits)
    ultimately show ?thesis by (simp add: objects1_def)
  qed
  have stored: "storeTaskSession task session1 (readTable objects tbl)
                  = readTable objects1 (storeTaskSession task address tbl)"
    by (rule storeTaskSession_readTable[OF here others])
  show ?thesis
  proof (cases "session_subagentName session \<noteq> name")
    case True
    have "prepareTaskSession invocation plannedTaskId candidates peer (storedWorld store)
        = (Inl (ToolError (''Task '' @ task @ '' belongs to subagent '' @ session_subagentName session
                    @ ''. Resume it with that same subagent.'')), storedWorld store)"
      using True Some lookup[unfolded fresh_def]
      by (simp add: prepareTaskSession_def Let_def makeSessionKey_def task_def[symmetric]
          name_def[symmetric])
    moreover have "startTaskInvocation invocation plannedTaskId candidates peer store
        = (Inl (ToolError (''Task '' @ task @ '' belongs to subagent '' @ session_subagentName session
                    @ ''. Resume it with that same subagent.'')), store)"
      using True Some
      by (cases "map_get task tbl")
         (simp_all add: startTaskInvocation_def Let_def makeSessionKey_def task_def[symmetric]
          name_def[symmetric] tbl_def[symmetric] objects_def[symmetric]
          session_def objects0_def address_def fresh_def)
    ultimately show ?thesis by simp
  next
    case False
    have p: "prepareTaskSession invocation plannedTaskId candidates peer (storedWorld store)
        = (Inr (subagent, task, session1),
           \<lparr>taskSessions = storeTaskSession task session1 (readTable objects tbl),
            nextSequenceId = (if length prompt > 0 then store_sequenceId store + 1
                              else store_sequenceId store)\<rparr>)"
      using False Some lookup[unfolded fresh_def]
      by (simp add: prepareTaskSession_def Let_def makeSessionKey_def task_def[symmetric]
          name_def[symmetric] prompt_def[symmetric] session1_def
          storedWorld_def readTable_def tbl_def objects_def)
    have s: "startTaskInvocation invocation plannedTaskId candidates peer store
        = (Inr (subagent, task, address),
           \<lparr>store_objects = objects1,
            store_table = storeTaskSession task address tbl,
            store_sequenceId = (if length prompt > 0 then store_sequenceId store + 1
                              else store_sequenceId store)\<rparr>)"
      using False Some
      by (cases "map_get task tbl")
         (simp_all add: startTaskInvocation_def Let_def makeSessionKey_def task_def[symmetric]
          name_def[symmetric] tbl_def[symmetric] objects_def[symmetric]
          prompt_def[symmetric] session_def objects0_def address_def objects1_def session1_def
          fresh_def)
    show ?thesis
      unfolding p s
      by (simp add: here storedWorld_def stored, simp add: readTable_def)
  qed
qed

lemma evictSessions_filter: "\<exists>P. evictSessions tbl = filter P tbl"
proof (induction tbl rule: evictSessions.induct)
  case (1 tbl)
  show ?case
  proof (cases "length tbl > MAX_TASK_SESSIONS")
    case False
    then have "evictSessions tbl = filter (\<lambda>e. True) tbl" by (simp add: evictSessions.simps)
    then show ?thesis by blast
  next
    case True
    show ?thesis
    proof (cases tbl)
      case Nil
      then have "evictSessions tbl = filter (\<lambda>e. True) tbl" by (simp add: evictSessions.simps)
      then show ?thesis by blast
    next
      case (Cons entry rest)
      obtain oldest v where e: "entry = (oldest, v)" by (cases entry)
      show ?thesis
      proof (cases "oldest = []")
        case True
        then have "evictSessions tbl = filter (\<lambda>e. True) tbl"
          using Cons e by (simp add: evictSessions.simps)
        then show ?thesis by blast
      next
        case False
        from 1[OF True Cons e[symmetric] False] obtain P where
          "evictSessions (map_delete oldest tbl) = filter P (map_delete oldest tbl)" by blast
        moreover have "evictSessions tbl = evictSessions (map_delete oldest tbl)"
          using True Cons e False by (subst evictSessions.simps) simp
        ultimately have "evictSessions tbl = filter (\<lambda>e. fst e \<noteq> oldest \<and> P e) tbl"
          by (simp add: map_delete_def)
        then show ?thesis by blast
      qed
    qed
  qed
qed

lemma tableOk_start:
  assumes ok: "tableOk store"
  shows "tableOk (snd (startTaskInvocation invocation plannedTaskId candidates peer store))"
proof (cases "fst (startTaskInvocation invocation plannedTaskId candidates peer store)")
  case (Inl e)
  then have "snd (startTaskInvocation invocation plannedTaskId candidates peer store) = store"
    by (auto simp: startTaskInvocation_def Let_def case_prod_beta split: option.splits if_splits)
  with ok show ?thesis by simp
next
  case (Inr triple)
  define task where "task = (case inv_task_id invocation of Some t \<Rightarrow> t | None \<Rightarrow> plannedTaskId)"
  define tbl where "tbl = store_table store"
  define objects where "objects = store_objects store"
  define address where "address = (case map_get task tbl of Some found \<Rightarrow> found | None \<Rightarrow> length objects)"
  let ?store' = "snd (startTaskInvocation invocation plannedTaskId candidates peer store)"
  from Inr have t: "store_table ?store' = storeTaskSession task address tbl"
    and l: "length objects \<le> length (store_objects ?store')"
    and r: "address < length (store_objects ?store')"
    using tableOk_address(1)[OF ok, of task]
    by (auto simp: startTaskInvocation_def Let_def case_prod_beta makeSessionKey_def task_def
        tbl_def objects_def address_def split: option.splits if_splits)
  obtain P where P: "storeTaskSession task address tbl
                       = filter P (map_delete task tbl @ [(task, address)])"
  proof -
    have "\<not> map_has task (map_delete task tbl)" by (auto simp: map_has_def map_delete_def)
    then have "map_set task address (map_delete task tbl) = map_delete task tbl @ [(task, address)]"
      by (simp add: map_set_def)
    with evictSessions_filter[of "map_set task address (map_delete task tbl)"] that
    show ?thesis by (auto simp: storeTaskSession_delete_first)
  qed
  have fresh: "a \<noteq> address" if "(key, a) \<in> set (map_delete task tbl)" for key a
  proof -
    from that have m: "(key, a) \<in> set tbl" and n: "key \<noteq> task" by (auto simp: map_delete_def)
    show ?thesis
    proof (cases "map_get task tbl")
      case None
      from ok m have "a < length objects" by (auto simp: tableOk_def tbl_def objects_def)
      with None show ?thesis by (simp add: address_def)
    next
      case (Some found)
      with tableOk_address(2)[OF ok, of task found key a] m n show ?thesis
        by (simp add: address_def tbl_def)
    qed
  qed
  have d1: "distinct (map fst (map_delete task tbl @ [(task, address)]))"
    using ok by (auto simp: tableOk_def tbl_def map_delete_def distinct_map_filter)
  have "address \<notin> snd ` set (map_delete task tbl)" using fresh by force
  moreover have "distinct (map snd (map_delete task tbl))"
    using ok by (simp add: tableOk_def tbl_def map_delete_def distinct_map_filter)
  ultimately have d2: "distinct (map snd (map_delete task tbl @ [(task, address)]))"
    by simp
  have range: "snd entry < length (store_objects ?store')"
    if "entry \<in> set (map_delete task tbl @ [(task, address)])" for entry
    using that ok l r by (auto simp: tableOk_def tbl_def objects_def map_delete_def)
  show ?thesis
    unfolding tableOk_def t P
  proof (intro conjI ballI)
    show "distinct (map fst (filter P (map_delete task tbl @ [(task, address)])))"
      using d1 by (rule distinct_map_filter)
    show "distinct (map snd (filter P (map_delete task tbl @ [(task, address)])))"
      using d2 by (rule distinct_map_filter)
    fix entry
    assume "entry \<in> set (filter P (map_delete task tbl @ [(task, address)]))"
    then have "entry \<in> set (map_delete task tbl @ [(task, address)])"
      by (simp only: set_filter) blast
    then show "snd entry < length (store_objects ?store')" by (rule range)
  qed
qed

lemma loadStore_ok:
  assumes "distinct (map fst (taskSessions world))"
  shows "tableOk (loadStore world)"
proof -
  let ?tbl = "taskSessions world"
  let ?refs = "map (\<lambda>(address, entry). (fst entry, address)) (enumerate 0 ?tbl)"
  have a: "map fst ?refs = map fst ?tbl"
    by (rule nth_equalityI) (simp_all add: nth_enumerate_eq case_prod_beta)
  have b: "map snd ?refs = [0..<length ?tbl]"
    by (rule nth_equalityI) (simp_all add: nth_enumerate_eq case_prod_beta)
  have "snd entry < length ?tbl" if "entry \<in> set ?refs" for entry
  proof -
    from that have "snd entry \<in> set (map snd ?refs)" by (simp del: map_map)
    then show ?thesis unfolding b by simp
  qed
  with assms show ?thesis
    unfolding tableOk_def loadStore_def by (simp add: a b del: map_map)
qed

lemma storedWorld_loadStore: "storedWorld (loadStore world) = world"
proof -
  have "map (\<lambda>(key, address). (key, map snd tbl ! address))
          (map (\<lambda>(address, entry). (fst entry, address)) (enumerate 0 tbl)) = tbl" for tbl :: sessions
    by (rule nth_equalityI) (simp_all add: nth_enumerate_eq case_prod_beta)
  then show ?thesis by (simp add: storedWorld_def loadStore_def)
qed

text \<open>The invocations of a batch.\<close>

lemma startAll_Cons:
  "startAll candidates ps n i ((invocation, task) # rest) store
     = (fst (startTaskInvocation invocation task candidates
              (Some \<lparr>peer_index = i, peer_total = n, peers = ps\<rparr>) store)
        # fst (startAll candidates ps n (i + 1) rest
              (snd (startTaskInvocation invocation task candidates
                 (Some \<lparr>peer_index = i, peer_total = n, peers = ps\<rparr>) store))),
        snd (startAll candidates ps n (i + 1) rest
              (snd (startTaskInvocation invocation task candidates
                 (Some \<lparr>peer_index = i, peer_total = n, peers = ps\<rparr>) store))))"
  by (simp add: case_prod_beta Let_def)

lemma startAll_length:
  "length (fst (startAll candidates ps n i plan store)) = length plan"
proof (induction plan arbitrary: i store)
  case Nil
  show ?case by simp
next
  case (Cons entry rest)
  obtain invocation task where e: "entry = (invocation, task)" by (cases entry)
  show ?case
    unfolding e startAll_Cons using Cons.IH by simp
qed

lemma startAll_nth:
  "k < length plan \<Longrightarrow>
     fst (startAll candidates ps n i plan store) ! k
       = fst (startTaskInvocation (fst (plan ! k)) (snd (plan ! k)) candidates
                (Some \<lparr>peer_index = i + k, peer_total = n, peers = ps\<rparr>)
                (snd (startAll candidates ps n i (take k plan) store)))"
proof (induction plan arbitrary: i k store)
  case Nil
  then show ?case by simp
next
  case (Cons entry rest)
  obtain invocation task where e: "entry = (invocation, task)" by (cases entry)
  show ?case
  proof (cases k)
    case 0
    show ?thesis unfolding e startAll_Cons 0 by simp
  next
    case (Suc j)
    with Cons.prems have j: "j < length rest" by simp
    show ?thesis
      unfolding e Suc take_Suc_Cons startAll_Cons
      using Cons.IH[OF j, of "i + 1"] by simp
  qed
qed

lemma startTaskInvocation_task:
  "fst (startTaskInvocation invocation plannedTaskId candidates peer store) = Inr (subagent, task, address)
     \<Longrightarrow> task = (case inv_task_id invocation of Some t \<Rightarrow> t | None \<Rightarrow> plannedTaskId)"
  by (auto simp: startTaskInvocation_def Let_def case_prod_beta
      split: option.splits if_splits)

lemma planned_length: "length (planned liveRunId args) = length (invocationInputs args)"
  by (simp add: planned_def)

lemma planned_fst:
  "i < length (invocationInputs args) \<Longrightarrow> fst (planned liveRunId args ! i) = invocationInputs args ! i"
  by (simp add: planned_def nth_enumerate_eq)

lemma planned_snd:
  "i < length (invocationInputs args) \<Longrightarrow>
     snd (planned liveRunId args ! i)
       = (case inv_task_id (invocationInputs args ! i) of
            Some t \<Rightarrow> t
          | None \<Rightarrow> makeLiveTaskID liveRunId i)"
  by (simp add: planned_def nth_enumerate_eq)

lemma planned_task:
  "i < length (invocationInputs args) \<Longrightarrow>
     (case inv_task_id (invocationInputs args ! i) of
        Some t \<Rightarrow> t
      | None \<Rightarrow> snd (planned liveRunId args ! i)) = snd (planned liveRunId args ! i)"
  by (simp add: planned_snd split: option.splits)

text \<open>
  Claim C2. For a call with a non-empty \<open>parallel_tasks\<close> that is not aborted before
  it starts, \<open>run\<close> throws nothing and returns the batch text: the count line, an empty
  line, and one section per planned invocation, in batch order. Every invocation is
  started, on the store left by the ones before it, whatever became of them and of the
  ones after it. An invocation that threw before its \<open>await\<close>, or whose subagent run
  threw, is reported by the failure observation under its planned task id: its trace is the
  line \<open>[task-error]\<close> followed by the message, its result is
  \<open>Subagent task failed: \<close> followed by the message. Every other invocation is
  reported by its own observation: its task id, subagent and description, the trace of the
  history its session has when the invocation is resumed, and the answer of the subagent.
\<close>

theorem parallel_failures_are_reported:
  assumes "parallel_tasks args = Some tasks" and "tasks \<noteq> []"
    and "startedInvocations candidates liveRunId args world = (starts, store)"
  shows "run env interleaving candidates liveRunId False abortedLater args world
           = (Inr (join_lines
                ((''task_parallel_count: '' @ show_nat (length tasks)) # [] #
                 map (\<lambda>observation.
                        join_lines
                          [''<task_observation>'',
                           ''task_id: '' @ obs_taskId observation,
                           ''task_subagent: '' @ obs_subagentName observation,
                           ''task_description: '' @ obs_description observation,
                           [],
                           ''<task_trace>'',
                           cutWithMarker 3000 (obs_trace observation),
                           ''</task_trace>'',
                           [],
                           ''<task_result>'',
                           cutWithMarker 1500 (obs_result observation),
                           ''</task_result>'',
                           ''</task_observation>''])
                   (fst (parallelObservations env interleaving candidates liveRunId args world)))),
              storedWorld (settledStore interleaving starts store))
       \<and> length starts = length tasks
       \<and> length (fst (parallelObservations env interleaving candidates liveRunId args world))
           = length tasks
       \<and> (\<forall>i < length tasks.
            starts ! i
              = fst (startTaskInvocation (tasks ! i) (snd (planned liveRunId args ! i)) candidates
                       (Some \<lparr>peer_index = i, peer_total = length tasks,
                              peers = peerSummariesOf liveRunId args\<rparr>)
                       (snd (startAll candidates (peerSummariesOf liveRunId args) (length tasks) 0
                               (take i (planned liveRunId args)) (loadStore world))))
            \<and> fst (parallelObservations env interleaving candidates liveRunId args world) ! i
              = (case starts ! i of
                   Inl e \<Rightarrow>
                     \<lparr>obs_taskId = snd (planned liveRunId args ! i),
                      obs_subagentName = inv_subagent_type (tasks ! i),
                      obs_description = inv_description (tasks ! i),
                      obs_trace = ''[task-error]'' @ [CHR 0x0A] @ errorText e,
                      obs_result = ''Subagent task failed: '' @ errorText e\<rparr>
                 | Inr (subagent, task, address) \<Rightarrow>
                     (case awaited interleaving starts store i of
                        (Inl e, resumed) \<Rightarrow>
                          \<lparr>obs_taskId = snd (planned liveRunId args ! i),
                           obs_subagentName = inv_subagent_type (tasks ! i),
                           obs_description = inv_description (tasks ! i),
                           obs_trace = ''[task-error]'' @ [CHR 0x0A] @ errorText e,
                           obs_result = ''Subagent task failed: '' @ errorText e\<rparr>
                      | (Inr answer, resumed) \<Rightarrow>
                          \<lparr>obs_taskId = snd (planned liveRunId args ! i),
                           obs_subagentName = inv_subagent_type (tasks ! i),
                           obs_description = inv_description (tasks ! i),
                           obs_trace =
                             summarizeTaskTrace env
                               (session_history (store_objects resumed ! address)),
                           obs_result = answer\<rparr>)))"
proof -
  let ?plan = "planned liveRunId args"
  let ?ps = "peerSummariesOf liveRunId args"
  let ?obs = "fst (parallelObservations env interleaving candidates liveRunId args world)"
  let ?settle = "\<lambda>(index, entry, start).
                 settleTaskInvocation env interleaving starts store index (fst entry) start"
  have inputs: "invocationInputs args = tasks"
    using assms by (simp add: invocationInputs_def)
  have lp: "length ?plan = length tasks" by (simp add: planned_length inputs)
  have st: "startAll candidates ?ps (length tasks) 0 ?plan (loadStore world) = (starts, store)"
    using assms(3) by (simp add: startedInvocations_def Let_def lp)
  have ls: "length starts = length tasks"
    using startAll_length[of candidates ?ps "length tasks" 0 ?plan "loadStore world"] st lp
    by simp
  have so: "settledOutcomes env interleaving candidates liveRunId args world
              = (map ?settle (enumerate 0 (zip ?plan starts)),
                 storedWorld (settledStore interleaving starts store))"
    by (simp add: settledOutcomes_def Let_def assms(3))
  have po: "parallelObservations env interleaving candidates liveRunId args world
              = (map (\<lambda>(entry, s). observationOfSettled entry s)
                   (zip ?plan (map ?settle (enumerate 0 (zip ?plan starts)))),
                 storedWorld (settledStore interleaving starts store))"
    by (simp add: parallelObservations_def Let_def so)
  have lo: "length ?obs = length tasks"
    unfolding po by (simp add: lp ls)
  have r: "run env interleaving candidates liveRunId False abortedLater args world
             = (Inr (buildParallelObservedTaskOutput ?obs),
                storedWorld (settledStore interleaving starts store))"
    using assms(1,2) by (simp add: run_def Let_def case_prod_beta po)
  have rendered: "buildParallelObservedTaskOutput ?obs
      = join_lines
                ((''task_parallel_count: '' @ show_nat (length tasks)) # [] #
                 map (\<lambda>observation.
                        join_lines
                          [''<task_observation>'',
                           ''task_id: '' @ obs_taskId observation,
                           ''task_subagent: '' @ obs_subagentName observation,
                           ''task_description: '' @ obs_description observation,
                           [],
                           ''<task_trace>'',
                           cutWithMarker 3000 (obs_trace observation),
                           ''</task_trace>'',
                           [],
                           ''<task_result>'',
                           cutWithMarker 1500 (obs_result observation),
                           ''</task_result>'',
                           ''</task_observation>'']) ?obs)"
    unfolding buildParallelObservedTaskOutput_def Let_def lo observationSection_def ..
  have each: "starts ! i
              = fst (startTaskInvocation (tasks ! i) (snd (?plan ! i)) candidates
                       (Some \<lparr>peer_index = i, peer_total = length tasks, peers = ?ps\<rparr>)
                       (snd (startAll candidates ?ps (length tasks) 0
                               (take i ?plan) (loadStore world))))
            \<and> ?obs ! i
              = (case starts ! i of
                   Inl e \<Rightarrow>
                     \<lparr>obs_taskId = snd (?plan ! i),
                      obs_subagentName = inv_subagent_type (tasks ! i),
                      obs_description = inv_description (tasks ! i),
                      obs_trace = ''[task-error]'' @ [CHR 0x0A] @ errorText e,
                      obs_result = ''Subagent task failed: '' @ errorText e\<rparr>
                 | Inr (subagent, task, address) \<Rightarrow>
                     (case awaited interleaving starts store i of
                        (Inl e, resumed) \<Rightarrow>
                          \<lparr>obs_taskId = snd (?plan ! i),
                           obs_subagentName = inv_subagent_type (tasks ! i),
                           obs_description = inv_description (tasks ! i),
                           obs_trace = ''[task-error]'' @ [CHR 0x0A] @ errorText e,
                           obs_result = ''Subagent task failed: '' @ errorText e\<rparr>
                      | (Inr answer, resumed) \<Rightarrow>
                          \<lparr>obs_taskId = snd (?plan ! i),
                           obs_subagentName = inv_subagent_type (tasks ! i),
                           obs_description = inv_description (tasks ! i),
                           obs_trace =
                             summarizeTaskTrace env
                               (session_history (store_objects resumed ! address)),
                           obs_result = answer\<rparr>))"
    if i: "i < length tasks" for i
  proof
    have pf: "fst (?plan ! i) = tasks ! i"
      using planned_fst[of i args liveRunId] inputs i by simp
    have "starts ! i = fst (startAll candidates ?ps (length tasks) 0 ?plan (loadStore world)) ! i"
      by (simp add: st)
    also have "\<dots> = fst (startTaskInvocation (fst (?plan ! i)) (snd (?plan ! i)) candidates
                (Some \<lparr>peer_index = 0 + i, peer_total = length tasks, peers = ?ps\<rparr>)
                (snd (startAll candidates ?ps (length tasks) 0 (take i ?plan) (loadStore world))))"
      by (rule startAll_nth) (simp add: lp i)
    finally show si: "starts ! i
              = fst (startTaskInvocation (tasks ! i) (snd (?plan ! i)) candidates
                       (Some \<lparr>peer_index = i, peer_total = length tasks, peers = ?ps\<rparr>)
                       (snd (startAll candidates ?ps (length tasks) 0
                               (take i ?plan) (loadStore world))))"
      by (simp add: pf)
    have oi: "?obs ! i = observationOfSettled (?plan ! i)
                (settleTaskInvocation env interleaving starts store i (tasks ! i) (starts ! i))"
      unfolding po using i lp ls by (simp add: nth_enumerate_eq pf)
    show "?obs ! i
              = (case starts ! i of
                   Inl e \<Rightarrow>
                     \<lparr>obs_taskId = snd (?plan ! i),
                      obs_subagentName = inv_subagent_type (tasks ! i),
                      obs_description = inv_description (tasks ! i),
                      obs_trace = ''[task-error]'' @ [CHR 0x0A] @ errorText e,
                      obs_result = ''Subagent task failed: '' @ errorText e\<rparr>
                 | Inr (subagent, task, address) \<Rightarrow>
                     (case awaited interleaving starts store i of
                        (Inl e, resumed) \<Rightarrow>
                          \<lparr>obs_taskId = snd (?plan ! i),
                           obs_subagentName = inv_subagent_type (tasks ! i),
                           obs_description = inv_description (tasks ! i),
                           obs_trace = ''[task-error]'' @ [CHR 0x0A] @ errorText e,
                           obs_result = ''Subagent task failed: '' @ errorText e\<rparr>
                      | (Inr answer, resumed) \<Rightarrow>
                          \<lparr>obs_taskId = snd (?plan ! i),
                           obs_subagentName = inv_subagent_type (tasks ! i),
                           obs_description = inv_description (tasks ! i),
                           obs_trace =
                             summarizeTaskTrace env
                               (session_history (store_objects resumed ! address)),
                           obs_result = answer\<rparr>))"
    proof (cases "starts ! i")
      case (Inl e)
      then show ?thesis
        unfolding oi
        by (simp add: settleTaskInvocation_def observationOfSettled_def pf
            taskObservationFromFailure_def Let_def)
    next
      case (Inr triple)
      obtain subagent task address where t: "triple = (subagent, task, address)"
        by (cases triple)
      from si Inr t have "task = (case inv_task_id (tasks ! i) of
                                    Some t \<Rightarrow> t | None \<Rightarrow> snd (?plan ! i))"
        by (intro startTaskInvocation_task[of _ _ _ _ _ subagent task address]) simp
      then have task: "task = snd (?plan ! i)"
        using planned_task[of i args liveRunId] inputs i by simp
      obtain outcome resumed where a: "awaited interleaving starts store i = (outcome, resumed)"
        by (cases "awaited interleaving starts store i")
      show ?thesis
        unfolding oi
        by (cases outcome)
           (simp_all add: Inr t a task settleTaskInvocation_def observationOfSettled_def pf
              taskObservationFromFailure_def Let_def)
    qed
  qed
  show ?thesis
    unfolding r rendered using ls lo each by simp
qed

text \<open>
  The theorem on the batch of three: the first invocation is answered, the subagent of the
  second throws, and the third is rejected by the pinning check.
\<close>

lemma threeTasks_observations:
  "fst (parallelObservations kindsEnv exploreThrows [general, explore] ''call'' threeTasks oneSessionWorld)
    = [\<lparr>obs_taskId = ''a'', obs_subagentName = ''general'', obs_description = ''first'',
          obs_trace = ''[user]'', obs_result = ''done''\<rparr>,
       \<lparr>obs_taskId = ''task_call_1'', obs_subagentName = ''explore'',
          obs_description = ''second'',
          obs_trace = ''[task-error]'' @ [CHR 0x0A] @ ''boom'',
          obs_result = ''Subagent task failed: boom''\<rparr>,
       \<lparr>obs_taskId = ''t1'', obs_subagentName = ''explore'',
          obs_description = ''third'',
          obs_trace = ''[task-error]'' @ [CHR 0x0A]
            @ ''Task t1 belongs to subagent general. Resume it with that same subagent.'',
          obs_result =
            ''Subagent task failed: Task t1 belongs to subagent general. Resume it with that same subagent.''\<rparr>]"
  by code_simp

theorem parallel_failures_are_reported_witness:
  "fst (run kindsEnv exploreThrows [general, explore] ''call'' False False threeTasks oneSessionWorld)
     = Inr (
        ''task_parallel_count: 3'' @ [CHR 0x0A] @ [CHR 0x0A] @ ''<task_observation>''
          @ [CHR 0x0A] @ ''task_id: a'' @ [CHR 0x0A] @ ''task_subagent: general'' @ [CHR 0x0A]
          @ ''task_description: first'' @ [CHR 0x0A] @ [CHR 0x0A] @ ''<task_trace>''
          @ [CHR 0x0A] @ ''[user]'' @ [CHR 0x0A] @ ''</task_trace>'' @ [CHR 0x0A] @ [CHR 0x0A]
          @ ''<task_result>'' @ [CHR 0x0A] @ ''done'' @ [CHR 0x0A] @ ''</task_result>''
          @ [CHR 0x0A] @ ''</task_observation>'' @ [CHR 0x0A] @ ''<task_observation>''
          @ [CHR 0x0A] @ ''task_id: task_call_1'' @ [CHR 0x0A] @ ''task_subagent: explore''
          @ [CHR 0x0A] @ ''task_description: second'' @ [CHR 0x0A] @ [CHR 0x0A]
          @ ''<task_trace>'' @ [CHR 0x0A] @ ''[task-error]'' @ [CHR 0x0A] @ ''boom''
          @ [CHR 0x0A] @ ''</task_trace>'' @ [CHR 0x0A] @ [CHR 0x0A] @ ''<task_result>''
          @ [CHR 0x0A] @ ''Subagent task failed: boom'' @ [CHR 0x0A] @ ''</task_result>''
          @ [CHR 0x0A] @ ''</task_observation>'' @ [CHR 0x0A] @ ''<task_observation>''
          @ [CHR 0x0A] @ ''task_id: t1'' @ [CHR 0x0A] @ ''task_subagent: explore'' @ [CHR 0x0A]
          @ ''task_description: third'' @ [CHR 0x0A] @ [CHR 0x0A] @ ''<task_trace>''
          @ [CHR 0x0A] @ ''[task-error]'' @ [CHR 0x0A]
          @ ''Task t1 belongs to subagent general. Resume it with that same subagent.''
          @ [CHR 0x0A] @ ''</task_trace>'' @ [CHR 0x0A] @ [CHR 0x0A] @ ''<task_result>''
          @ [CHR 0x0A]
          @ ''Subagent task failed: Task t1 belongs to subagent general. Resume it with that same subagent.''
          @ [CHR 0x0A] @ ''</task_result>'' @ [CHR 0x0A] @ ''</task_observation>'')"
proof -
  have p: "parallel_tasks threeTasks = Some (the (parallel_tasks threeTasks))"
    and n: "the (parallel_tasks threeTasks) \<noteq> []"
    and l: "length (the (parallel_tasks threeTasks)) = 3"
    by (simp_all add: threeTasks_def)
  have s: "startedInvocations [general, explore] ''call'' threeTasks oneSessionWorld
      = (fst (startedInvocations [general, explore] ''call'' threeTasks oneSessionWorld),
         snd (startedInvocations [general, explore] ''call'' threeTasks oneSessionWorld))"
    by simp
  have rendered: "join_lines
                ((''task_parallel_count: '' @ show_nat 3) # [] #
                 map (\<lambda>observation.
                        join_lines
                          [''<task_observation>'',
                           ''task_id: '' @ obs_taskId observation,
                           ''task_subagent: '' @ obs_subagentName observation,
                           ''task_description: '' @ obs_description observation,
                           [],
                           ''<task_trace>'',
                           cutWithMarker 3000 (obs_trace observation),
                           ''</task_trace>'',
                           [],
                           ''<task_result>'',
                           cutWithMarker 1500 (obs_result observation),
                           ''</task_result>'',
                           ''</task_observation>''])
       [\<lparr>obs_taskId = ''a'', obs_subagentName = ''general'', obs_description = ''first'',
          obs_trace = ''[user]'', obs_result = ''done''\<rparr>,
       \<lparr>obs_taskId = ''task_call_1'', obs_subagentName = ''explore'',
          obs_description = ''second'',
          obs_trace = ''[task-error]'' @ [CHR 0x0A] @ ''boom'',
          obs_result = ''Subagent task failed: boom''\<rparr>,
       \<lparr>obs_taskId = ''t1'', obs_subagentName = ''explore'',
          obs_description = ''third'',
          obs_trace = ''[task-error]'' @ [CHR 0x0A]
            @ ''Task t1 belongs to subagent general. Resume it with that same subagent.'',
          obs_result =
            ''Subagent task failed: Task t1 belongs to subagent general. Resume it with that same subagent.''\<rparr>])
     = (
        ''task_parallel_count: 3'' @ [CHR 0x0A] @ [CHR 0x0A] @ ''<task_observation>''
          @ [CHR 0x0A] @ ''task_id: a'' @ [CHR 0x0A] @ ''task_subagent: general'' @ [CHR 0x0A]
          @ ''task_description: first'' @ [CHR 0x0A] @ [CHR 0x0A] @ ''<task_trace>''
          @ [CHR 0x0A] @ ''[user]'' @ [CHR 0x0A] @ ''</task_trace>'' @ [CHR 0x0A] @ [CHR 0x0A]
          @ ''<task_result>'' @ [CHR 0x0A] @ ''done'' @ [CHR 0x0A] @ ''</task_result>''
          @ [CHR 0x0A] @ ''</task_observation>'' @ [CHR 0x0A] @ ''<task_observation>''
          @ [CHR 0x0A] @ ''task_id: task_call_1'' @ [CHR 0x0A] @ ''task_subagent: explore''
          @ [CHR 0x0A] @ ''task_description: second'' @ [CHR 0x0A] @ [CHR 0x0A]
          @ ''<task_trace>'' @ [CHR 0x0A] @ ''[task-error]'' @ [CHR 0x0A] @ ''boom''
          @ [CHR 0x0A] @ ''</task_trace>'' @ [CHR 0x0A] @ [CHR 0x0A] @ ''<task_result>''
          @ [CHR 0x0A] @ ''Subagent task failed: boom'' @ [CHR 0x0A] @ ''</task_result>''
          @ [CHR 0x0A] @ ''</task_observation>'' @ [CHR 0x0A] @ ''<task_observation>''
          @ [CHR 0x0A] @ ''task_id: t1'' @ [CHR 0x0A] @ ''task_subagent: explore'' @ [CHR 0x0A]
          @ ''task_description: third'' @ [CHR 0x0A] @ [CHR 0x0A] @ ''<task_trace>''
          @ [CHR 0x0A] @ ''[task-error]'' @ [CHR 0x0A]
          @ ''Task t1 belongs to subagent general. Resume it with that same subagent.''
          @ [CHR 0x0A] @ ''</task_trace>'' @ [CHR 0x0A] @ [CHR 0x0A] @ ''<task_result>''
          @ [CHR 0x0A]
          @ ''Subagent task failed: Task t1 belongs to subagent general. Resume it with that same subagent.''
          @ [CHR 0x0A] @ ''</task_result>'' @ [CHR 0x0A] @ ''</task_observation>'')"
    by code_simp
  from parallel_failures_are_reported[OF p n s, of kindsEnv exploreThrows False, THEN conjunct1]
  show ?thesis
    unfolding threeTasks_observations l rendered by (simp only: fst_conv)
qed

text \<open>
  The batch in which the explicit task id of the second invocation is the id derived for
  the first passes \<open>validate\<close>. Both invocations are started on the same session object,
  which holds both prompts before any subagent runs; when both subagents have pushed their
  answer before the invocations are resumed, the two observations carry the same trace.
\<close>

lemma colliding_ids_share_a_session:
  "validate [general, explore] collidingTasks = Inr ()
   \<and> map (map_sum id (snd \<circ> snd))
         (fst (startedInvocations [general, explore] ''call'' collidingTasks emptyWorld))
       = [Inr 0, Inr 0]
   \<and> map kindOf (session_history
         (store_objects (snd (startedInvocations [general, explore] ''call'' collidingTasks emptyWorld)) ! 0))
       = [''[user]'', ''[user]'']
   \<and> map obs_trace
         (fst (parallelObservations kindsEnv lockstep [general, explore] ''call'' collidingTasks emptyWorld))
       = [''[user]'' @ [CHR 0x0A] @ ''[user]'' @ [CHR 0x0A] @ ''[assistant]'' @ [CHR 0x0A] @ ''[assistant]'',
          ''[user]'' @ [CHR 0x0A] @ ''[user]'' @ [CHR 0x0A] @ ''[assistant]'' @ [CHR 0x0A] @ ''[assistant]'']"
  by code_simp

subsection \<open>Bounded retry of malformed tool calls\<close>

lemma arc_step:
  assumes na: "neverAborted env"
    and run: "runModel env (arcMessages env messages) = (tokens, Success output curl)"
    and ne: "output \<noteq> []" and mal: "isToolMalformed (last output)"
  shows "\<exists>st7. arcInvocations st7 = arcInvocations st0 @ [B]
           \<and> modelTurns st7 = modelTurns st0 + 1
           \<and> (\<not> shouldAutoCompactHistory env messages \<longrightarrow>
                 summaryRequests st7 = summaryRequests st0)
           \<and> trajectoryArc env B messages st0 =
               (if B \<le> 0 then
                  (Inr \<lparr>finish_irs = arcOutput env messages,
                        finish_reason = RequestError tooManyMalformed curl\<rparr>, st7)
                else
                  (case trajectoryArc env (B - 1)
                          (arcMessages env messages @ arcOutput env messages)
                          (emit (RetryTool (arcOutput env messages)) st7) of
                     (Inl e, st9) \<Rightarrow> (Inl e, st9)
                   | (Inr f, st9) \<Rightarrow>
                       (Inr \<lparr>finish_irs = arcOutput env messages @ finish_irs f,
                             finish_reason = finish_reason f\<rparr>, st9)))"
proof -
  have a: "\<And>n. abortedAt env n = False" using na by (simp add: neverAborted_def)
  define st where "st = st0\<lparr>arcInvocations := arcInvocations st0 @ [B]\<rparr>"
  define st1 where "st1 = st\<lparr>abortReads := abortReads st + 1\<rparr>"
  obtain pc st2 where mc: "maybeAutocompact env messages st1 = (pc, st2)"
    by (cases "maybeAutocompact env messages st1")
  have pc: "(case pc of Some cp \<Rightarrow> [cp] | None \<Rightarrow> []) = compactionOf env messages"
    using mc by (auto simp: maybeAutocompact_def compactionOf_def Let_def split: if_splits option.splits)
  have mcopy: "(case pc of Some cp \<Rightarrow> messages @ [cp] | None \<Rightarrow> messages) = arcMessages env messages"
    using pc by (cases pc) (auto simp: arcMessages_def)
  have st2: "arcInvocations st2 = arcInvocations st0 @ [B]" "modelTurns st2 = modelTurns st0"
    "\<not> shouldAutoCompactHistory env messages \<longrightarrow> summaryRequests st2 = summaryRequests st0"
    using mc by (auto simp: maybeAutocompact_def Let_def emit_def st1_def st_def split: if_splits option.splits)
  define st3 where "st3 = (case pc of Some cp \<Rightarrow> emit (CompactionParsed cp) st2 | None \<Rightarrow> st2)"
  define st4 where "st4 = st3\<lparr>abortReads := abortReads st3 + 1\<rparr>"
  define st5 where "st5 = emit StartResponse st4"
  define st6 where "st6 = st5\<lparr>modelTurns := modelTurns st5 + 1\<rparr>"
  define st7 where "st7 = st6\<lparr>abortReads := abortReads st6 + 1\<rparr>"
  define st8 where "st8 = emit (RetryTool (arcOutput env messages)) st7"
  have st3: "arcInvocations st3 = arcInvocations st0 @ [B]" "modelTurns st3 = modelTurns st0"
    "\<not> shouldAutoCompactHistory env messages \<longrightarrow> summaryRequests st3 = summaryRequests st0"
    using st2 by (auto simp: st3_def emit_def split: option.splits)
  have s7: "arcInvocations st7 = arcInvocations st0 @ [B]" "modelTurns st7 = modelTurns st0 + 1"
    "\<not> shouldAutoCompactHistory env messages \<longrightarrow> summaryRequests st7 = summaryRequests st0"
    using st3 by (auto simp: st7_def st6_def st5_def st4_def emit_def)
  have out: "arcOutput env messages = (case pc of Some cp \<Rightarrow> [cp] | None \<Rightarrow> []) @ output"
    by (simp add: arcOutput_def turnOutput_def run pc)
  have unfolded: "trajectoryArc env B messages st0 =
          (if B \<le> 0 then
                  (Inr \<lparr>finish_irs = arcOutput env messages,
                        finish_reason = RequestError tooManyMalformed curl\<rparr>, st7)
                else
                  (case trajectoryArc env (B - 1)
                          (arcMessages env messages @ arcOutput env messages) st8 of
                     (Inl e, st9) \<Rightarrow> (Inl e, st9)
                   | (Inr f, st9) \<Rightarrow>
                       (Inr \<lparr>finish_irs = arcOutput env messages @ finish_irs f,
                             finish_reason = finish_reason f\<rparr>, st9)))"
    apply (subst trajectoryArc.simps)
    apply (simp only: Let_def readAborted_def a st_def[symmetric] split_conv if_False)
    apply (simp only: st1_def[symmetric] mc split_conv mcopy if_False)
    apply (simp only: st3_def[symmetric] st4_def[symmetric] st5_def[symmetric] run split_conv
        st6_def[symmetric] st7_def[symmetric] if_False RunResult.case)
    apply (simp add: ne mal out[symmetric] st8_def[symmetric] tooManyMalformed_def
        split: prod.splits sum.splits)
    done
  show ?thesis
    using s7 unfolded unfolding st8_def by blast
qed

lemma budgets_Suc:
  "map (\<lambda>k. int (Suc n) - int k) [0..<Suc (Suc n)]
     = int (Suc n) # map (\<lambda>k. int n - int k) [0..<Suc n]"
proof -
  have "[0..<Suc (Suc n)] = 0 # map Suc [0..<Suc n]"
    by (simp only: map_Suc_upt upt_conv_Cons[of 0 "Suc (Suc n)"] zero_less_Suc)
  then show ?thesis by (simp add: comp_def del: upt_Suc)
qed

lemma malformed_only_run:
  assumes na: "neverAborted env" and om: "onlyMalformed env"
  shows "\<exists>f st' curl.
           trajectoryArc env (int n) messages st0 = (Inr f, st')
           \<and> finish_irs f = retryOutputs env n messages
           \<and> finish_reason f = RequestError tooManyMalformed curl
           \<and> arcInvocations st' = arcInvocations st0 @ map (\<lambda>k. int n - int k) [0..<Suc n]
           \<and> modelTurns st' = modelTurns st0 + Suc n
           \<and> ((\<forall>m. \<not> shouldAutoCompactHistory env m) \<longrightarrow>
                 summaryRequests st' = summaryRequests st0)"
proof (induction n arbitrary: messages st0)
  case 0
  from om obtain tokens out curl where
    run: "runModel env (arcMessages env messages) = (tokens, Success out curl)"
      "out \<noteq> []" "isToolMalformed (last out)"
    unfolding onlyMalformed_def by blast
  from arc_step[OF na run, of st0 0] obtain st7 where
    "arcInvocations st7 = arcInvocations st0 @ [0]" "modelTurns st7 = modelTurns st0 + 1"
    "\<not> shouldAutoCompactHistory env messages \<longrightarrow> summaryRequests st7 = summaryRequests st0"
    "trajectoryArc env 0 messages st0 =
       (Inr \<lparr>finish_irs = arcOutput env messages,
             finish_reason = RequestError tooManyMalformed curl\<rparr>, st7)"
    by auto
  then show ?case by simp
next
  case (Suc n)
  from om obtain tokens out curl where
    run: "runModel env (arcMessages env messages) = (tokens, Success out curl)"
      "out \<noteq> []" "isToolMalformed (last out)"
    unfolding onlyMalformed_def by blast
  from arc_step[OF na run, of st0 "int (Suc n)"] obtain st7 where
    st7: "arcInvocations st7 = arcInvocations st0 @ [int (Suc n)]"
      "modelTurns st7 = modelTurns st0 + 1"
      "\<not> shouldAutoCompactHistory env messages \<longrightarrow> summaryRequests st7 = summaryRequests st0"
    and unf: "trajectoryArc env (int (Suc n)) messages st0 =
       (case trajectoryArc env (int (Suc n) - 1)
               (arcMessages env messages @ arcOutput env messages)
               (emit (RetryTool (arcOutput env messages)) st7) of
          (Inl e, st9) \<Rightarrow> (Inl e, st9)
        | (Inr f, st9) \<Rightarrow>
            (Inr \<lparr>finish_irs = arcOutput env messages @ finish_irs f,
                  finish_reason = finish_reason f\<rparr>, st9))"
    by auto
  let ?st8 = "emit (RetryTool (arcOutput env messages)) st7"
  have i: "int (Suc n) - 1 = int n" by simp
  from Suc.IH[of "arcMessages env messages @ arcOutput env messages" ?st8]
  obtain f st' c where
    r: "trajectoryArc env (int n) (arcMessages env messages @ arcOutput env messages) ?st8
          = (Inr f, st')"
      "finish_irs f = retryOutputs env n (arcMessages env messages @ arcOutput env messages)"
      "finish_reason f = RequestError tooManyMalformed c"
      "arcInvocations st' = arcInvocations ?st8 @ map (\<lambda>k. int n - int k) [0..<Suc n]"
      "modelTurns st' = modelTurns ?st8 + Suc n"
      "(\<forall>m. \<not> shouldAutoCompactHistory env m) \<longrightarrow> summaryRequests st' = summaryRequests ?st8"
    by blast
  have "trajectoryArc env (int (Suc n)) messages st0
          = (Inr \<lparr>finish_irs = arcOutput env messages @ finish_irs f,
                  finish_reason = finish_reason f\<rparr>, st')"
    unfolding unf i r(1) by simp
  moreover have "arcInvocations st'
      = arcInvocations st0 @ map (\<lambda>k. int (Suc n) - int k) [0..<Suc (Suc n)]"
    unfolding r(4) budgets_Suc using st7 by (simp add: emit_def)
  moreover have "modelTurns st' = modelTurns st0 + Suc (Suc n)"
    unfolding r(5) using st7 by (simp add: emit_def)
  moreover have "(\<forall>m. \<not> shouldAutoCompactHistory env m) \<longrightarrow>
                 summaryRequests st' = summaryRequests st0"
    using r(6) st7(3) by (simp add: emit_def)
  ultimately show ?case using r(2,3) by simp
qed

lemma arc_retry_step:
  assumes na: "neverAborted env" and om: "onlyMalformed env" and pos: "0 < B"
  shows "\<exists>st1. fst (trajectoryArc env B messages st0) =
           (case fst (trajectoryArc env (B - 1)
                        (arcMessages env messages @ arcOutput env messages) st1) of
              Inl e \<Rightarrow> Inl e
            | Inr f \<Rightarrow> Inr \<lparr>finish_irs = arcOutput env messages @ finish_irs f,
                             finish_reason = finish_reason f\<rparr>)"
proof -
  from om obtain tokens out curl where
    run: "runModel env (arcMessages env messages) = (tokens, Success out curl)"
      "out \<noteq> []" "isToolMalformed (last out)"
    unfolding onlyMalformed_def by blast
  from arc_step[OF na run, of st0 B] pos obtain st7 where
    unf: "trajectoryArc env B messages st0 =
       (case trajectoryArc env (B - 1)
               (arcMessages env messages @ arcOutput env messages)
               (emit (RetryTool (arcOutput env messages)) st7) of
          (Inl e, st9) \<Rightarrow> (Inl e, st9)
        | (Inr f, st9) \<Rightarrow>
            (Inr \<lparr>finish_irs = arcOutput env messages @ finish_irs f,
                  finish_reason = finish_reason f\<rparr>, st9))"
    by auto
  show ?thesis
    unfolding unf
    by (intro exI[of _ "emit (RetryTool (arcOutput env messages)) st7"])
       (simp split: prod.splits sum.splits)
qed

text \<open>
  Claim C1. Take a retry budget \<open>B \<ge> 0\<close>, a backend that only emits malformed tool calls,
  and an abort signal that is never set. Then \<open>trajectoryArc\<close> returns, and finishes with
  the request error for too many malformed tool retries. The arc has been invoked exactly
  \<open>B + 1\<close> times, with the budgets \<open>B, B - 1, ..., 0\<close>, and has made exactly \<open>B + 1\<close>
  model turns, one per invocation (a compaction summary is requested from the backend only
  where the auto-compaction predicate holds). The output is the output of the first arc
  followed by the outputs of the retries in order. For \<open>B > 0\<close> the finish is that of the
  arc run with budget \<open>B - 1\<close> on the message log with this arc's output appended, with
  this arc's output in front of its output.
\<close>

theorem malformed_retries_exhaust_budget:
  assumes "0 \<le> B" and "neverAborted env" and "onlyMalformed env"
  shows "\<exists>f st' curl.
           trajectoryArc env B messages st0 = (Inr f, st')
           \<and> finish_reason f = RequestError tooManyMalformed curl
           \<and> finish_irs f = retryOutputs env (nat B) messages
           \<and> arcInvocations st' = arcInvocations st0 @ map (\<lambda>k. B - int k) [0..<nat B + 1]
           \<and> length (arcInvocations st') = length (arcInvocations st0) + nat B + 1
           \<and> modelTurns st' = modelTurns st0 + nat B + 1
           \<and> ((\<forall>m. \<not> shouldAutoCompactHistory env m) \<longrightarrow>
                 summaryRequests st' = summaryRequests st0)
           \<and> (0 < B \<longrightarrow>
                (\<exists>st1. fst (trajectoryArc env B messages st0) =
                   (case fst (trajectoryArc env (B - 1)
                                (arcMessages env messages @ arcOutput env messages) st1) of
                      Inl e \<Rightarrow> Inl e
                    | Inr g \<Rightarrow> Inr \<lparr>finish_irs = arcOutput env messages @ finish_irs g,
                                     finish_reason = finish_reason g\<rparr>)))"
proof -
  from assms(1) have B: "B = int (nat B)" by simp
  from malformed_only_run[OF assms(2,3), of "nat B" messages st0]
  obtain f st' curl where
    r: "trajectoryArc env (int (nat B)) messages st0 = (Inr f, st')"
      "finish_irs f = retryOutputs env (nat B) messages"
      "finish_reason f = RequestError tooManyMalformed curl"
      "arcInvocations st' = arcInvocations st0 @ map (\<lambda>k. int (nat B) - int k) [0..<Suc (nat B)]"
      "modelTurns st' = modelTurns st0 + Suc (nat B)"
      "(\<forall>m. \<not> shouldAutoCompactHistory env m) \<longrightarrow> summaryRequests st' = summaryRequests st0"
    by blast
  have len: "length (arcInvocations st') = length (arcInvocations st0) + nat B + 1"
    unfolding r(4) by simp
  have step: "0 < B \<longrightarrow>
                (\<exists>st1. fst (trajectoryArc env B messages st0) =
                   (case fst (trajectoryArc env (B - 1)
                                (arcMessages env messages @ arcOutput env messages) st1) of
                      Inl e \<Rightarrow> Inl e
                    | Inr g \<Rightarrow> Inr \<lparr>finish_irs = arcOutput env messages @ finish_irs g,
                                     finish_reason = finish_reason g\<rparr>))"
    using arc_retry_step[OF assms(2,3)] by blast
  show ?thesis
    using r len step assms(1) by (intro exI[of _ f] exI[of _ st'] exI[of _ curl]) simp
qed

text \<open>The theorem for the budget 2 and a backend that answers every turn with one malformed call.\<close>

theorem malformed_retries_exhaust_budget_witness:
  "arcInvocations (snd (trajectoryArc malformedEnv 2 [] freshState)) = [2, 1, 0]
   \<and> modelTurns (snd (trajectoryArc malformedEnv 2 [] freshState)) = 3
   \<and> map_sum id finish_irs (fst (trajectoryArc malformedEnv 2 [] freshState))
       = Inr [ToolMalformedIR ''bad json'', ToolMalformedIR ''bad json'', ToolMalformedIR ''bad json'']"
proof -
  have b: "(0::int) \<le> 2" by simp
  have na: "neverAborted malformedEnv" by (simp add: neverAborted_def malformedEnv_def)
  have om: "onlyMalformed malformedEnv" by (simp add: onlyMalformed_def malformedEnv_def)
  from malformed_retries_exhaust_budget[OF b na om, of "[]" freshState]
  obtain f st' where
    r: "trajectoryArc malformedEnv 2 [] freshState = (Inr f, st')"
      "finish_irs f = retryOutputs malformedEnv (nat 2) []"
      "arcInvocations st' = arcInvocations freshState @ map (\<lambda>k. 2 - int k) [0..<nat 2 + 1]"
      "modelTurns st' = modelTurns freshState + nat 2 + 1"
    by blast
  have o: "retryOutputs malformedEnv (nat 2) []
      = [ToolMalformedIR ''bad json'', ToolMalformedIR ''bad json'', ToolMalformedIR ''bad json'']"
    by (simp add: eval_nat_numeral arcOutput_def turnOutput_def compactionOf_def arcMessages_def
        malformedEnv_def)
  have u: "[0..<nat 2 + 1] = [0, 1, 2]" by (simp add: eval_nat_numeral upt_rec)
  show ?thesis
    unfolding r(1) using r(2-4) o u by (simp add: freshState_def)
qed

subsection \<open>Required fields\<close>

text \<open>
  Claim C6. A block whose \<open>task_id\<close> line is empty is not rejected: the \<open>\s*\<close> of
  the field pattern runs over the line feed, so the next line is read as the task id. The
  same happens to an empty description written by the single builder, which is read back
  as the line \<open><task_trace>\<close>.
\<close>

theorem empty_required_field_is_not_rejected:
  "parseTaskObservationBlock emptyIdBlock
     = Some \<lparr>obs_taskId = ''task_subagent: explore'', obs_subagentName = ''explore'',
              obs_description = ''scan repo'', obs_trace = [], obs_result = []\<rparr>
   \<and> parseTaskObservationFromToolOutput
         (buildObservedTaskOutput (fullObservation\<lparr>obs_description := []\<rparr>))
     = Some (fullObservation\<lparr>obs_description := ''<task_trace>''\<rparr>)"
  by code_simp

subsection \<open>Round trip through the wire format\<close>

lemma prefix_before_separator:
  assumes "sep \<notin> set p" and "prefix p (a @ sep # b)"
  shows "prefix p a"
proof -
  from assms(2) have "prefix p a \<or> (\<exists>us. p = a @ us \<and> prefix us (sep # b))"
    by (simp add: prefix_append)
  then show ?thesis
  proof
    assume "\<exists>us. p = a @ us \<and> prefix us (sep # b)"
    then obtain us where us: "p = a @ us" "prefix us (sep # b)" by blast
    show ?thesis
    proof (cases us)
      case Nil
      with us show ?thesis by simp
    next
      case (Cons u us')
      with us(2) have "u = sep" by simp
      with us(1) Cons assms(1) show ?thesis by simp
    qed
  qed
qed

lemma sublist_across_separator:
  assumes "sep \<notin> set p"
  shows "sublist p (a @ sep # b) \<longleftrightarrow> sublist p a \<or> sublist p b"
proof
  assume "sublist p (a @ sep # b)"
  then obtain ps ss where eq: "a @ sep # b = ps @ p @ ss" by (auto simp: sublist_def)
  show "sublist p a \<or> sublist p b"
  proof (cases "length ps \<le> length a")
    case True
    from eq have "drop (length ps) (a @ sep # b) = p @ ss" by simp
    with True have "drop (length ps) a @ sep # b = p @ ss" by simp
    then have "prefix p (drop (length ps) a @ sep # b)" by simp
    from prefix_before_separator[OF assms this] have "prefix p (drop (length ps) a)" .
    then have "sublist p (drop (length ps) a)" by (rule prefix_imp_sublist)
    then have "sublist p a" by (metis sublist_drop sublist_order.order_trans)
    then show ?thesis ..
  next
    case False
    then have "length a < length ps" by simp
    from eq have "drop (Suc (length a)) (a @ sep # b) = drop (Suc (length a)) (ps @ p @ ss)" by simp
    with \<open>length a < length ps\<close> have "b = drop (Suc (length a)) ps @ p @ ss" by simp
    then have "sublist p b" by (metis sublist_appendI)
    then show ?thesis ..
  qed
next
  assume "sublist p a \<or> sublist p b"
  then show "sublist p (a @ sep # b)"
  proof
    assume "sublist p a"
    then show ?thesis by (metis sublist_append_rightI sublist_order.order_trans)
  next
    assume "sublist p b"
    then have "sublist p (sep # b)" by (simp add: sublist_Cons_right)
    then show ?thesis by (metis sublist_append_leftI sublist_order.order_trans)
  qed
qed

lemma sublist_after_foreign_prefix:
  assumes "p \<noteq> []" and "hd p \<notin> set k"
  shows "sublist p (k @ x) \<longleftrightarrow> sublist p x"
  using assms(2)
proof (induction k)
  case Nil
  show ?case by simp
next
  case (Cons c k)
  have "\<not> prefix p (c # k @ x)"
    using assms(1) Cons.prems by (cases p) auto
  with Cons show ?case by (simp add: sublist_Cons_right)
qed

lemma not_sublist_foreign:
  assumes "c \<in> set p" and "c \<notin> set s"
  shows "\<not> sublist p s"
  using assms by (auto simp: sublist_def)



lemma match_tagged_at_no_prefix:
  "\<not> prefix opening s \<Longrightarrow> match_tagged_at opening closing s = None"
  by (simp add: match_tagged_at_def)

lemma search_tagged_skip_line:
  assumes "CHR 0x0A \<notin> set opening" and "opening \<noteq> []" and "\<not> sublist opening l"
  shows "search_tagged opening closing (l @ CHR 0x0A # s) = search_tagged opening closing s"
  using assms(3)
proof (induction l)
  case Nil
  have "\<not> prefix opening (CHR 0x0A # s)"
    using assms(1,2) by (cases "opening") auto
  then show ?case by (simp add: match_tagged_at_no_prefix)
next
  case (Cons c l)
  have "\<not> prefix opening ((c # l) @ CHR 0x0A # s)"
  proof
    assume "prefix opening ((c # l) @ CHR 0x0A # s)"
    from prefix_before_separator[OF assms(1) this] have "prefix opening (c # l)" .
    then have "sublist opening (c # l)" by (rule prefix_imp_sublist)
    with Cons.prems show False by simp
  qed
  then have "match_tagged_at opening closing (c # l @ CHR 0x0A # s) = None"
    by (simp add: match_tagged_at_no_prefix)
  moreover have "\<not> sublist opening l"
    using Cons.prems by (simp add: sublist_Cons_right)
  ultimately show ?case using Cons.IH by simp
qed

lemma search_tagged_absent:
  assumes "\<not> sublist opening s"
  shows "search_tagged opening closing s = None"
  using assms
proof (induction s)
  case Nil
  then have "\<not> prefix opening []" by (auto simp: prefix_imp_sublist)
  then show ?case by (simp add: match_tagged_at_no_prefix)
next
  case (Cons c s)
  then have "\<not> prefix opening (c # s)" by (auto dest: prefix_imp_sublist)
  then have "match_tagged_at opening closing (c # s) = None"
    by (simp add: match_tagged_at_no_prefix)
  moreover have "\<not> sublist opening s"
    using Cons.prems by (simp add: sublist_Cons_right)
  ultimately show ?case using Cons.IH by simp
qed

lemma match_nl_tag_at_end:
  "match_nl_tag closing (CHR 0x0A # closing @ rest) = Some rest"
  by (simp add: match_nl_tag_def)

lemma lazy_body_line:
  assumes "CHR 0x0A \<notin> set closing" and "closing \<noteq> []" and "\<not> sublist closing t"
  shows "lazy_body closing (t @ CHR 0x0A # closing @ rest) = Some (t, rest)"
  using assms(3)
proof (induction t)
  case Nil
  show ?case by (simp add: match_nl_tag_at_end)
next
  case (Cons c t)
  have nt: "\<not> sublist closing t"
    using Cons.prems by (simp add: sublist_Cons_right)
  have p1: "\<not> prefix closing (c # t @ CHR 0x0A # closing @ rest)"
  proof
    assume "prefix closing (c # t @ CHR 0x0A # closing @ rest)"
    then have "prefix closing ((c # t) @ CHR 0x0A # closing @ rest)" by simp
    from prefix_before_separator[OF assms(1) this] have "prefix closing (c # t)" .
    then have "sublist closing (c # t)" by (rule prefix_imp_sublist)
    with Cons.prems show False by simp
  qed
  have p2: "\<not> prefix closing (t @ CHR 0x0A # closing @ rest)"
  proof
    assume "prefix closing (t @ CHR 0x0A # closing @ rest)"
    from prefix_before_separator[OF assms(1) this] have "prefix closing t" .
    then have "sublist closing t" by (rule prefix_imp_sublist)
    with nt show False by simp
  qed
  have "match_nl_tag closing (c # t @ CHR 0x0A # closing @ rest) = None"
    using p1 p2 by (simp add: match_nl_tag_def)
  then show ?case using Cons.IH[OF nt] by simp
qed

lemma match_tagged_at_section:
  assumes "CHR 0x0A \<notin> set closing" and "closing \<noteq> []" and "\<not> sublist closing t"
  shows "match_tagged_at opening closing (opening @ CHR 0x0A # t @ CHR 0x0A # closing @ rest) = Some (t, rest)"
  using lazy_body_line[OF assms, of rest]
  by (simp add: match_tagged_at_def)

lemma search_tagged_section:
  assumes "CHR 0x0A \<notin> set closing" and "closing \<noteq> []" and "\<not> sublist closing t"
    and "opening \<noteq> []"
  shows "search_tagged opening closing (opening @ CHR 0x0A # t @ CHR 0x0A # closing @ rest) = Some (t, rest)"
proof -
  from assms(4) obtain c cs where o: "opening = c # cs" by (cases "opening") auto
  have "search_tagged opening closing ((c # cs) @ CHR 0x0A # t @ CHR 0x0A # closing @ rest) = Some (t, rest)"
    using match_tagged_at_section[OF assms(1-3), of "opening" rest] o by simp
  then show ?thesis by (simp add: o)
qed


lemma capture_line_plain:
  assumes "y \<noteq> []" and "\<forall>c \<in> set y. \<not> is_line_terminator c"
  shows "capture_line (y @ CHR 0x0A # rest) = Some y"
proof -
  have "takeWhile (\<lambda>c. \<not> is_line_terminator c) (y @ CHR 0x0A # rest) = y"
    using assms(2) by (simp add: takeWhile_append2 is_line_terminator_def)
  then show ?thesis using assms(1) by (simp add: capture_line_def)
qed

lemma field_value_plain:
  assumes "y \<noteq> []" and "\<not> is_space (hd y)" and "\<forall>c \<in> set y. \<not> is_line_terminator c"
  shows "field_value (y @ CHR 0x0A # rest) = Some y"
proof -
  from assms(1) obtain c cs where y: "y = c # cs" by (cases y) auto
  have "field_value ((c # cs) @ CHR 0x0A # rest) = capture_line ((c # cs) @ CHR 0x0A # rest)"
    using assms(2) y by simp
  then show ?thesis using capture_line_plain[OF assms(1,3)] y by simp
qed

lemma field_value_after_space:
  assumes "y \<noteq> []" and "\<not> is_space (hd y)" and "\<forall>c \<in> set y. \<not> is_line_terminator c"
  shows "field_value (CHR '' '' # y @ CHR 0x0A # rest) = Some y"
  using field_value_plain[OF assms] by (simp add: is_space_def)

lemma search_field_here:
  assumes "key \<noteq> []" and "field_value s = Some y"
  shows "search_field key True (key @ s) = Some y"
proof -
  from assms(1) obtain c cs where k: "key = c # cs" by (cases key) auto
  have "match_field_at key (key @ s) = Some y"
    using assms(2) by (simp add: match_field_at_def)
  then have "search_field key True ((c # cs) @ s) = Some y"
    using k by simp
  then show ?thesis by (simp add: k)
qed

lemma search_field_rest_of_line:
  assumes "\<forall>c \<in> set l. \<not> is_line_terminator c"
  shows "search_field key False (l @ CHR 0x0A # s) = search_field key True s"
  using assms by (induction l) (auto simp: is_line_terminator_def)

lemma search_field_skip_line:
  assumes "key \<noteq> []" and "CHR 0x0A \<notin> set key" and "\<forall>c \<in> set l. \<not> is_line_terminator c"
    and "\<not> prefix key l"
  shows "search_field key True (l @ CHR 0x0A # s) = search_field key True s"
proof (cases l)
  case Nil
  have "\<not> prefix key (CHR 0x0A # s)" using assms(1,2) by (cases key) auto
  then show ?thesis using Nil by (simp add: match_field_at_def is_line_terminator_def)
next
  case (Cons c l')
  have "\<not> prefix key (l @ CHR 0x0A # s)"
    using prefix_before_separator[OF assms(2)] assms(4) by blast
  then have "match_field_at key (c # l' @ CHR 0x0A # s) = None"
    using Cons by (simp add: match_field_at_def)
  moreover have "\<not> is_line_terminator c" "\<forall>c \<in> set l'. \<not> is_line_terminator c"
    using assms(3) Cons by auto
  ultimately show ?thesis
    using Cons search_field_rest_of_line[of l' key s] by simp
qed


lemma dropWhile_same_length:
  assumes "length (dropWhile P xs) = length xs"
  shows "xs = [] \<or> \<not> P (hd xs)"
proof (cases xs)
  case Nil
  then show ?thesis by simp
next
  case (Cons x xs')
  show ?thesis
  proof (cases "P x")
    case True
    then have "length (dropWhile P xs) = length (dropWhile P xs')" using Cons by simp
    also have "\<dots> \<le> length xs'" by (rule length_dropWhile_le)
    finally show ?thesis using assms Cons by simp
  next
    case False
    then show ?thesis using Cons by simp
  qed
qed

lemma trimmed_ends:
  assumes "trimmed s" and "s \<noteq> []"
  shows "\<not> is_space (hd s)"
proof -
  let ?d = "dropWhile is_space s"
  have "length (trim s) = length (dropWhile is_space (rev ?d))" by (simp add: trim_def)
  also have "\<dots> \<le> length (rev ?d)" by (rule length_dropWhile_le)
  finally have "length (trim s) \<le> length ?d" by simp
  moreover have "length ?d \<le> length s" by (rule length_dropWhile_le)
  moreover have "length (trim s) = length s" using assms(1) by (simp add: trimmed_def)
  ultimately have "length ?d = length s" by simp
  from dropWhile_same_length[OF this] assms(2) show ?thesis by simp
qed

lemma trimmed_Nil [simp]: "trimmed []"
  by (simp add: trimmed_def trim_def)



lemma search_tagged_skip_empty_line:
  assumes "CHR 0x0A \<notin> set opening" and "opening \<noteq> []"
  shows "search_tagged opening closing (CHR 0x0A # s) = search_tagged opening closing s"
  using search_tagged_skip_line[OF assms, of "[]" closing s] assms(2) by simp

lemma sublist_after_separator:
  assumes "sep \<notin> set p" and "p \<noteq> []"
  shows "sublist p (sep # b) \<longleftrightarrow> sublist p b"
  using sublist_across_separator[OF assms(1), of "[]" b] assms(2) by simp

lemma tagFree_tags:
  assumes "tagFree s"
  shows "\<not> sublist ''<task_trace>'' s" "\<not> sublist ''</task_trace>'' s"
    "\<not> sublist ''<task_result>'' s" "\<not> sublist ''</task_result>'' s"
    "\<not> sublist ''<task_observation>'' s" "\<not> sublist ''</task_observation>'' s"
  using assms by (simp_all add: tagFree_def wireTags_def)

lemma block_parses:
  assumes x: "plainField x" and y: "plainField y" and z: "plainField z"
    and t: "trimmed t" "tagFree t" and r: "trimmed r" "tagFree r"
  defines "s \<equiv> ''task_id: '' @ x @ CHR 0x0A # ''task_subagent: '' @ y @ CHR 0x0A #
      ''task_description: '' @ z @ CHR 0x0A # CHR 0x0A # ''<task_trace>'' @ CHR 0x0A # t @ CHR 0x0A # ''</task_trace>''
      @ CHR 0x0A # CHR 0x0A # ''<task_result>'' @ CHR 0x0A # r @ CHR 0x0A # ''</task_result>''"
  shows "parseTaskObservationBlock s
           = Some \<lparr>obs_taskId = x, obs_subagentName = y, obs_description = z,
                   obs_trace = t, obs_result = r\<rparr>"
    and "\<not> sublist ''<task_observation>'' s" and "\<not> sublist ''</task_observation>'' s"
proof -
  define l1 where "l1 = ''task_id: '' @ x"
  define l2 where "l2 = ''task_subagent: '' @ y"
  define l3 where "l3 = ''task_description: '' @ z"
  define o1 where "o1 = ''<task_trace>''"
  define c1 where "c1 = ''</task_trace>''"
  define o2 where "o2 = ''<task_result>''"
  define c2 where "c2 = ''</task_result>''"
  define s9 where "s9 = o2 @ CHR 0x0A # r @ CHR 0x0A # c2"
  define s5 where "s5 = o1 @ CHR 0x0A # t @ CHR 0x0A # c1 @ CHR 0x0A # CHR 0x0A # s9"
  define s3 where "s3 = l3 @ CHR 0x0A # CHR 0x0A # s5"
  define s2 where "s2 = l2 @ CHR 0x0A # s3"
  have s: "s = l1 @ CHR 0x0A # s2"
    by (simp add: s_def l1_def l2_def l3_def s9_def s5_def s3_def s2_def o1_def c1_def o2_def c2_def)
  have xs: "x \<noteq> []" "\<not> is_space (hd x)" "\<forall>c \<in> set x. \<not> is_line_terminator c" "tagFree x"
    and ys: "y \<noteq> []" "\<not> is_space (hd y)" "\<forall>c \<in> set y. \<not> is_line_terminator c" "tagFree y"
    and zs: "z \<noteq> []" "\<not> is_space (hd z)" "\<forall>c \<in> set z. \<not> is_line_terminator c" "tagFree z"
    using x y z by (auto simp: plainField_def singleLine_def dest: trimmed_ends)
  have sl: "\<forall>c \<in> set l1. \<not> is_line_terminator c" "\<forall>c \<in> set l2. \<not> is_line_terminator c"
    "\<forall>c \<in> set l3. \<not> is_line_terminator c"
    using xs(3) ys(3) zs(3) by (auto simp: l1_def l2_def l3_def is_line_terminator_def)
  \<comment> \<open>the three fields\<close>
  have f1: "match_field ''task_id:'' s = Some x"
  proof -
    have "s = ''task_id:'' @ CHR '' '' # x @ CHR 0x0A # s2" by (simp add: s l1_def)
    then show ?thesis
      using search_field_here[OF _ field_value_after_space[OF xs(1-3)], of "''task_id:''" s2]
      by (simp add: match_field_def)
  qed
  have f2: "match_field ''task_subagent:'' s = Some y"
  proof -
    have "search_field ''task_subagent:'' True s = search_field ''task_subagent:'' True s2"
      unfolding s by (rule search_field_skip_line) (simp_all add: sl l1_def)
    moreover have "s2 = ''task_subagent:'' @ CHR '' '' # y @ CHR 0x0A # s3" by (simp add: s2_def l2_def)
    ultimately show ?thesis
      using search_field_here[OF _ field_value_after_space[OF ys(1-3)], of "''task_subagent:''" s3]
      by (simp add: match_field_def)
  qed
  have f3: "match_field ''task_description:'' s = Some z"
  proof -
    have "search_field ''task_description:'' True s = search_field ''task_description:'' True s2"
      unfolding s by (rule search_field_skip_line) (simp_all add: sl l1_def)
    also have "\<dots> = search_field ''task_description:'' True s3"
      unfolding s2_def by (rule search_field_skip_line) (simp_all add: sl l2_def)
    finally have "search_field ''task_description:'' True s = search_field ''task_description:'' True s3" .
    moreover have "s3 = ''task_description:'' @ CHR '' '' # z @ CHR 0x0A # (CHR 0x0A # s5)"
      by (simp add: s3_def l3_def)
    ultimately show ?thesis
      using search_field_here[OF _ field_value_after_space[OF zs(1-3)], of "''task_description:''" "CHR 0x0A # s5"]
      by (simp add: match_field_def)
  qed
  \<comment> \<open>no tag in the three field lines\<close>
  have nl: "\<not> sublist tag l1" "\<not> sublist tag l2" "\<not> sublist tag l3"
    if "tag \<noteq> []" "hd tag = CHR ''<''" "\<not> sublist tag x" "\<not> sublist tag y" "\<not> sublist tag z" for tag
  proof -
    have "sublist tag (''task_id: '' @ x) \<longleftrightarrow> sublist tag x"
      by (rule sublist_after_foreign_prefix) (use that in simp_all)
    then show "\<not> sublist tag l1" using that unfolding l1_def by blast
    have "sublist tag (''task_subagent: '' @ y) \<longleftrightarrow> sublist tag y"
      by (rule sublist_after_foreign_prefix) (use that in simp_all)
    then show "\<not> sublist tag l2" using that unfolding l2_def by blast
    have "sublist tag (''task_description: '' @ z) \<longleftrightarrow> sublist tag z"
      by (rule sublist_after_foreign_prefix) (use that in simp_all)
    then show "\<not> sublist tag l3" using that unfolding l3_def by blast
  qed
  have skip3: "search_tagged tag closing s = search_tagged tag closing s5"
    if "tag \<noteq> []" "hd tag = CHR ''<''" "CHR 0x0A \<notin> set tag"
      "\<not> sublist tag x" "\<not> sublist tag y" "\<not> sublist tag z" for tag closing
    unfolding s s2_def s3_def
    using nl[OF that(1,2,4,5,6)]
    by (simp add: search_tagged_skip_line[OF that(3,1)] search_tagged_skip_empty_line[OF that(3,1)]
        del: search_tagged.simps)
  have tr: "search_tagged ''<task_trace>'' ''</task_trace>'' s = Some (t, CHR 0x0A # CHR 0x0A # s9)"
  proof -
    have "search_tagged ''<task_trace>'' ''</task_trace>'' s
            = search_tagged ''<task_trace>'' ''</task_trace>'' s5"
      by (rule skip3) (simp_all add: tagFree_tags xs ys zs)
    also have "\<dots> = Some (t, CHR 0x0A # CHR 0x0A # s9)"
      unfolding s5_def o1_def c1_def
      by (rule search_tagged_section) (simp_all add: tagFree_tags t)
    finally show ?thesis .
  qed
  have re: "search_tagged ''<task_result>'' ''</task_result>'' s = Some (r, [])"
  proof -
    have a: "\<not> sublist ''<task_result>'' o1" "\<not> sublist ''<task_result>'' c1"
      unfolding o1_def c1_def by (rule not_sublist_foreign[of "CHR ''u''"]; simp)+
    have k: "CHR 0x0A \<notin> set ''<task_result>''" "''<task_result>'' \<noteq> []" by simp_all
    have "search_tagged ''<task_result>'' ''</task_result>'' s
            = search_tagged ''<task_result>'' ''</task_result>'' s5"
      by (rule skip3) (simp_all add: tagFree_tags xs ys zs)
    also have "\<dots> = search_tagged ''<task_result>'' ''</task_result>'' s9"
      unfolding s5_def
      using a tagFree_tags(3)[OF t(2)]
      by (simp add: search_tagged_skip_line[OF k] search_tagged_skip_empty_line[OF k]
          del: search_tagged.simps)
    also have "\<dots> = Some (r, [])"
      using search_tagged_section[of "''</task_result>''" r "''<task_result>''" "[]"]
      by (simp add: s9_def o2_def c2_def tagFree_tags r)
    finally show ?thesis .
  qed
  have tt: "trim x = x" "trim y = y" "trim z = z" "trim t = t" "trim r = r"
    using x y z t r by (simp_all add: plainField_def trimmed_def)
  show "parseTaskObservationBlock s
           = Some \<lparr>obs_taskId = x, obs_subagentName = y, obs_description = z,
                   obs_trace = t, obs_result = r\<rparr>"
    by (simp add: parseTaskObservationBlock_def f1 f2 f3 tr re tt falsy_def xs ys zs Let_def)
  \<comment> \<open>no wrapper tag anywhere in the block\<close>
  have nw: "\<not> sublist tag s"
    if tg: "tag \<noteq> []" "hd tag = CHR ''<''" "CHR 0x0A \<notin> set tag" "CHR ''o'' \<in> set tag"
      "\<not> sublist tag x" "\<not> sublist tag y" "\<not> sublist tag z" "\<not> sublist tag t" "\<not> sublist tag r"
    for tag
  proof -
    have fixed: "\<not> sublist tag o1" "\<not> sublist tag c1" "\<not> sublist tag o2" "\<not> sublist tag c2"
      unfolding o1_def c1_def o2_def c2_def
      by (rule not_sublist_foreign[OF tg(4)]; simp)+
    show ?thesis
      unfolding s s2_def s3_def s5_def s9_def
      using nl[OF tg(1,2,5,6,7)] fixed tg(8,9)
      by (simp add: sublist_across_separator[OF tg(3)] sublist_after_separator[OF tg(3,1)])
  qed
  show "\<not> sublist ''<task_observation>'' s"
    by (rule nw) (simp_all add: tagFree_tags xs ys zs t r)
  show "\<not> sublist ''</task_observation>'' s"
    by (rule nw) (simp_all add: tagFree_tags xs ys zs t r)
qed



lemma cutWithMarker_within: "length s \<le> cap \<Longrightarrow> cutWithMarker cap s = s"
  by (simp add: cutWithMarker_def)

lemma record_eta:
  "\<lparr>obs_taskId = obs_taskId obs, obs_subagentName = obs_subagentName obs,
    obs_description = obs_description obs, obs_trace = obs_trace obs,
    obs_result = obs_result obs\<rparr> = (obs :: TaskObservation)"
  by simp

lemma single_round_trip:
  assumes "roundTrips 4000 2000 obs"
  shows "parseTaskObservationFromToolOutput (buildObservedTaskOutput obs) = Some obs"
proof -
  have f: "plainField (obs_taskId obs)" "plainField (obs_subagentName obs)"
    "plainField (obs_description obs)"
    and t: "trimmed (obs_trace obs)" "tagFree (obs_trace obs)" "length (obs_trace obs) \<le> 4000"
    and r: "trimmed (obs_result obs)" "tagFree (obs_result obs)" "length (obs_result obs) \<le> 2000"
    using assms by (simp_all add: roundTrips_def plainBody_def)
  note b = block_parses[OF f t(1,2) r(1,2)]
  have out: "buildObservedTaskOutput obs
      = ''task_id: '' @ obs_taskId obs @ CHR 0x0A # ''task_subagent: '' @ obs_subagentName obs @ CHR 0x0A #
        ''task_description: '' @ obs_description obs @ CHR 0x0A # CHR 0x0A # ''<task_trace>'' @ CHR 0x0A #
        obs_trace obs @ CHR 0x0A # ''</task_trace>''
        @ CHR 0x0A # CHR 0x0A # ''<task_result>'' @ CHR 0x0A # obs_result obs @ CHR 0x0A # ''</task_result>''"
    by (simp add: buildObservedTaskOutput_def cutWithMarker_within t(3) r(3))
  have w: "wrappedMatches (buildObservedTaskOutput obs) = []"
    unfolding out
    by (subst wrappedMatches.simps) (simp only: search_tagged_absent[OF b(2)] option.case)
  have p: "parseTaskObservationBlock (buildObservedTaskOutput obs) = Some obs"
    unfolding out by (simp only: b(1) record_eta)
  show ?thesis
    by (simp add: parseTaskObservationFromToolOutput_def parseTaskObservationsFromToolOutput_def w p)
qed


lemma join_lines_Cons: "join_lines (l # ls) = l @ concat (map (\<lambda>s. CHR 0x0A # s) ls)"
  by (induction ls arbitrary: l) simp_all

lemma digit_not_lt: "d < 10 \<Longrightarrow> char_of (48 + d :: nat) \<noteq> CHR ''<''"
proof
  assume d: "d < 10" and "char_of (48 + d) = CHR ''<''"
  then have "(of_char (char_of (48 + d) :: char) :: nat) = of_char (CHR ''<'')" by simp
  then show False using d by simp
qed

lemma show_nat_no_lt: "CHR ''<'' \<notin> set (show_nat n)"
proof (induction n rule: show_nat.induct)
  case (1 n)
  show ?case
  proof (cases "n < 10")
    case True
    then show ?thesis using digit_not_lt[of n] by (subst show_nat.simps) auto
  next
    case False
    have "n mod 10 < 10" by simp
    then have "char_of (48 + n mod 10) \<noteq> CHR ''<''" by (rule digit_not_lt)
    then show ?thesis using 1 False by (subst show_nat.simps) auto
  qed
qed

lemma wrappedMatches_skip_line:
  assumes "\<not> sublist ''<task_observation>'' l"
  shows "wrappedMatches (l @ CHR 0x0A # s) = wrappedMatches s"
proof -
  have "search_tagged ''<task_observation>'' ''</task_observation>'' (l @ CHR 0x0A # s)
          = search_tagged ''<task_observation>'' ''</task_observation>'' s"
    by (rule search_tagged_skip_line) (simp_all add: assms)
  then show ?thesis
    by (subst wrappedMatches.simps, subst (2) wrappedMatches.simps) (simp only:)
qed

lemma section_step:
  assumes "roundTrips 3000 1500 obs"
  shows "\<exists>b. parseTaskObservationBlock b = Some obs
           \<and> (\<forall>rest. wrappedMatches (CHR 0x0A # observationSection obs @ rest) = b # wrappedMatches rest)"
proof -
  have f: "plainField (obs_taskId obs)" "plainField (obs_subagentName obs)"
    "plainField (obs_description obs)"
    and t: "trimmed (obs_trace obs)" "tagFree (obs_trace obs)" "length (obs_trace obs) \<le> 3000"
    and r: "trimmed (obs_result obs)" "tagFree (obs_result obs)" "length (obs_result obs) \<le> 1500"
    using assms by (simp_all add: roundTrips_def plainBody_def)
  define b where "b = ''task_id: '' @ obs_taskId obs @ CHR 0x0A # ''task_subagent: '' @ obs_subagentName obs @ CHR 0x0A #
        ''task_description: '' @ obs_description obs @ CHR 0x0A # CHR 0x0A # ''<task_trace>'' @ CHR 0x0A #
        obs_trace obs @ CHR 0x0A # ''</task_trace>''
        @ CHR 0x0A # CHR 0x0A # ''<task_result>'' @ CHR 0x0A # obs_result obs @ CHR 0x0A # ''</task_result>''"
  note bp = block_parses[OF f t(1,2) r(1,2), folded b_def]
  have sec: "observationSection obs = ''<task_observation>'' @ CHR 0x0A # b @ CHR 0x0A # ''</task_observation>''"
    by (simp add: observationSection_def cutWithMarker_within t(3) r(3) b_def)
  have "wrappedMatches (CHR 0x0A # observationSection obs @ rest) = b # wrappedMatches rest" for rest
  proof -
    have "wrappedMatches ([] @ CHR 0x0A # observationSection obs @ rest)
            = wrappedMatches (observationSection obs @ rest)"
      by (rule wrappedMatches_skip_line) simp
    moreover have "search_tagged ''<task_observation>'' ''</task_observation>''
                     (''<task_observation>'' @ CHR 0x0A # b @ CHR 0x0A # ''</task_observation>'' @ rest)
                   = Some (b, rest)"
      by (rule search_tagged_section) (simp_all add: bp(3))
    then have "wrappedMatches (observationSection obs @ rest) = b # wrappedMatches rest"
      by (subst wrappedMatches.simps) (simp add: sec)
    ultimately show ?thesis by simp
  qed
  with bp(1) show ?thesis by (auto simp: record_eta)
qed

lemma sections_parse:
  assumes "\<forall>obs \<in> set observations. roundTrips 3000 1500 obs"
  shows "map parseTaskObservationBlock
           (wrappedMatches (concat (map (\<lambda>s. CHR 0x0A # s) (map observationSection observations))))
         = map Some observations"
  using assms
proof (induction observations)
  case Nil
  show ?case by (simp add: wrappedMatches.simps match_tagged_at_def)
next
  case (Cons obs observations)
  then obtain b where b: "parseTaskObservationBlock b = Some obs"
    "\<And>rest. wrappedMatches (CHR 0x0A # observationSection obs @ rest) = b # wrappedMatches rest"
    using section_step[of obs] by auto
  show ?case using Cons b by simp
qed

lemma batch_header:
  "\<not> sublist ''<task_observation>'' (''task_parallel_count: '' @ show_nat n)"
  by (rule not_sublist_foreign[of "CHR ''<''"]) (simp_all add: show_nat_no_lt)

lemma batch_round_trip:
  assumes "\<forall>obs \<in> set observations. roundTrips 3000 1500 obs"
  shows "parseTaskObservationsFromToolOutput (buildParallelObservedTaskOutput observations)
           = observations"
proof (cases observations)
  case Nil
  have "parseTaskObservationsFromToolOutput (buildParallelObservedTaskOutput []) = []"
    by code_simp
  then show ?thesis using Nil by simp
next
  case (Cons obs rest)
  define n where "n = length observations"
  have out: "buildParallelObservedTaskOutput observations
      = (''task_parallel_count: '' @ show_nat n) @ CHR 0x0A #
          concat (map (\<lambda>s. CHR 0x0A # s) (map observationSection observations))"
    by (simp add: buildParallelObservedTaskOutput_def join_lines_Cons n_def del: join_lines.simps)
  have w: "wrappedMatches (buildParallelObservedTaskOutput observations)
      = wrappedMatches (concat (map (\<lambda>s. CHR 0x0A # s) (map observationSection observations)))"
    unfolding out by (rule wrappedMatches_skip_line) (rule batch_header)
  have m: "map parseTaskObservationBlock (wrappedMatches (buildParallelObservedTaskOutput observations))
      = map Some observations"
    unfolding w by (rule sections_parse) (rule assms)
  have "length (map parseTaskObservationBlock
          (wrappedMatches (buildParallelObservedTaskOutput observations))) = length observations"
    unfolding m by simp
  then have l: "length (wrappedMatches (buildParallelObservedTaskOutput observations)) > 0"
    using Cons by simp
  have "map the (filter (\<lambda>v. v \<noteq> None) (map Some observations)) = observations"
    by (induction observations) simp_all
  then show ?thesis
    unfolding parseTaskObservationsFromToolOutput_def Let_def
    using l by (simp only: m if_True)
qed

text \<open>
  Claim C5. An observation whose task id, subagent name and description are non-empty
  single lines, whose trace and result are within the caps of the builder, and whose fields
  are all trimmed and free of the tags of the wire format, is recovered unchanged from the
  text of the single builder. A list of such observations, the empty list included, is
  recovered unchanged from the text of the batch builder. The trace and the result may be
  empty.
\<close>

theorem observation_round_trip:
  "(roundTrips 4000 2000 obs \<longrightarrow>
      parseTaskObservationFromToolOutput (buildObservedTaskOutput obs) = Some obs)
   \<and> ((\<forall>obs \<in> set observations. roundTrips 3000 1500 obs) \<longrightarrow>
        parseTaskObservationsFromToolOutput (buildParallelObservedTaskOutput observations)
          = observations)"
  using single_round_trip batch_round_trip by blast

theorem observation_round_trip_witness:
  "parseTaskObservationFromToolOutput (buildObservedTaskOutput emptyObservation)
       = Some emptyObservation
   \<and> parseTaskObservationsFromToolOutput
         (buildParallelObservedTaskOutput [emptyObservation, fullObservation])
       = [emptyObservation, fullObservation]"
proof -
  have one: "roundTrips 4000 2000 emptyObservation" by code_simp
  have e: "roundTrips 3000 1500 emptyObservation" by code_simp
  have f: "roundTrips 3000 1500 fullObservation" by code_simp
  have both: "\<forall>obs \<in> set [emptyObservation, fullObservation]. roundTrips 3000 1500 obs"
    using e f by simp
  note rt = observation_round_trip[of emptyObservation "[emptyObservation, fullObservation]"]
  from rt one have "parseTaskObservationFromToolOutput (buildObservedTaskOutput emptyObservation)
       = Some emptyObservation" by blast
  moreover from rt both have "parseTaskObservationsFromToolOutput
         (buildParallelObservedTaskOutput [emptyObservation, fullObservation])
       = [emptyObservation, fullObservation]" by blast
  ultimately show ?thesis by blast
qed

text \<open>
  Claim C5 as stated fails. The parser trims what it reads: a result that ends in a line
  feed comes back without it.
\<close>

theorem observation_round_trip_counterexample:
  "parseTaskObservationFromToolOutput (buildObservedTaskOutput paddedObservation)
     = Some (paddedObservation\<lparr>obs_result := ''Done''\<rparr>)
   \<and> parseTaskObservationFromToolOutput (buildObservedTaskOutput paddedObservation)
     \<noteq> Some paddedObservation"
  by code_simp

subsection \<open>Reading a batch\<close>





















end
